theory Spec2Isabelle
  imports Complex_Main "HOL-Library.Word" "HOL-Library.Sublist" "HOL-Library.Log_Nat"
    "HOL-Library.Code_Target_Numeral"
begin

section \<open>Strings\<close>

text \<open>
  A JavaScript string is a sequence of UTF-16 code units. The regular expressions of the
  program carry no \<^verbatim>\<open>u\<close> flag, so they see a text code unit by code unit.
\<close>

type_synonym cu = "16 word"
type_synonym jsstring = "cu list"

text \<open>An ASCII literal of the program, as code units.\<close>

definition js :: "string \<Rightarrow> jsstring" where
  "js s = map (\<lambda>c. of_nat (of_char c)) s"

text \<open>
  The class \<^verbatim>\<open>\s\<close> and the characters \<^verbatim>\<open>trim()\<close> strips are the same set:
  WhiteSpace (TAB, VT, FF, ZWNBSP and the Unicode space separators) and LineTerminator.
\<close>

definition isLineTerminator :: "cu \<Rightarrow> bool" where
  "isLineTerminator c \<longleftrightarrow> c = 0x0A \<or> c = 0x0D \<or> c = 0x2028 \<or> c = 0x2029"

definition isWhiteSpace :: "cu \<Rightarrow> bool" where
  "isWhiteSpace c \<longleftrightarrow>
     c = 0x09 \<or> c = 0x0B \<or> c = 0x0C \<or> c = 0x20 \<or> c = 0xA0 \<or> c = 0x1680 \<or>
     (0x2000 \<le> c \<and> c \<le> 0x200A) \<or> c = 0x202F \<or> c = 0x205F \<or> c = 0x3000 \<or>
     c = 0xFEFF \<or> isLineTerminator c"

definition trim :: "jsstring \<Rightarrow> jsstring" where
  "trim s = rev (dropWhile isWhiteSpace (rev (dropWhile isWhiteSpace s)))"

definition isHighSurrogate :: "cu \<Rightarrow> bool" where
  "isHighSurrogate c \<longleftrightarrow> 0xD800 \<le> c \<and> c \<le> 0xDBFF"

definition isLowSurrogate :: "cu \<Rightarrow> bool" where
  "isLowSurrogate c \<longleftrightarrow> 0xDC00 \<le> c \<and> c \<le> 0xDFFF"

text \<open>
  \<^verbatim>\<open>new Blob([s]).size\<close>: the string is converted to scalar values (a surrogate pair is
  one code point, a lone surrogate becomes U+FFFD) and encoded in UTF-8; the size is the
  number of bytes.
\<close>

fun utf8_encode :: "jsstring \<Rightarrow> 8 word list" where
  "utf8_encode [] = []"
| "utf8_encode (c # cs) =
     (if isHighSurrogate c then
        (case cs of
           d # ds \<Rightarrow>
             if isLowSurrogate d then
               (let cp = 0x10000 + (unat c - 0xD800) * 0x400 + (unat d - 0xDC00) in
                  [of_nat (0xF0 + cp div 0x40000), of_nat (0x80 + cp div 0x1000 mod 0x40),
                   of_nat (0x80 + cp div 0x40 mod 0x40), of_nat (0x80 + cp mod 0x40)]
                  @ utf8_encode ds)
             else [0xEF, 0xBF, 0xBD] @ utf8_encode cs
         | [] \<Rightarrow> [0xEF, 0xBF, 0xBD])
      else if isLowSurrogate c then [0xEF, 0xBF, 0xBD] @ utf8_encode cs
      else if c < 0x80 then of_nat (unat c) # utf8_encode cs
      else if c < 0x800 then
        [of_nat (0xC0 + unat c div 0x40), of_nat (0x80 + unat c mod 0x40)] @ utf8_encode cs
      else
        [of_nat (0xE0 + unat c div 0x1000), of_nat (0x80 + unat c div 0x40 mod 0x40),
         of_nat (0x80 + unat c mod 0x40)] @ utf8_encode cs)"

definition blob_size :: "jsstring \<Rightarrow> nat" where
  "blob_size s = length (utf8_encode s)"

section \<open>Regular expressions\<close>

text \<open>
  A regular expression is modelled by its matcher: given the text from some position on,
  the length of the match that starts at this position, if there is one. None of the
  expressions of the program looks behind the position.

  \<^verbatim>\<open>re.test(s)\<close> for an expression without the \<^verbatim>\<open>g\<close> flag tries every position from
  the left.
\<close>

fun regex_test :: "(jsstring \<Rightarrow> nat option) \<Rightarrow> jsstring \<Rightarrow> bool" where
  "regex_test m [] = (m [] \<noteq> None)"
| "regex_test m (c # cs) = (m (c # cs) \<noteq> None \<or> regex_test m cs)"

text \<open>
  \<^verbatim>\<open>s.replace(re, rep)\<close> for an expression with the \<^verbatim>\<open>g\<close> flag and a replacement
  without \<^verbatim>\<open>$\<close>: the leftmost match is replaced and the search goes on behind it; after
  an empty match the next code unit is copied.
\<close>

function replace_all :: "(jsstring \<Rightarrow> nat option) \<Rightarrow> jsstring \<Rightarrow> jsstring \<Rightarrow> jsstring" where
  "replace_all m rep [] = (case m [] of None \<Rightarrow> [] | Some n \<Rightarrow> rep)"
| "replace_all m rep (c # cs) =
     (case m (c # cs) of
        None \<Rightarrow> c # replace_all m rep cs
      | Some 0 \<Rightarrow> rep @ c # replace_all m rep cs
      | Some (Suc n) \<Rightarrow> rep @ replace_all m rep (drop n cs))"
  by pat_completeness auto
termination
  by (relation "measure (\<lambda>(m, rep, s). length s)") auto

text \<open>The position of the first occurrence of a literal.\<close>

fun find_sub :: "jsstring \<Rightarrow> jsstring \<Rightarrow> nat option" where
  "find_sub p [] = (if p = [] then Some 0 else None)"
| "find_sub p (c # cs) =
     (if prefix p (c # cs) then Some 0 else map_option Suc (find_sub p cs))"

text \<open>
  \<^verbatim>\<open>open[\s\S]*?close\<close> for two literals: the lazy star stops at the first
  occurrence of the closing literal behind the opening one.
\<close>

definition m_delimited :: "jsstring \<Rightarrow> jsstring \<Rightarrow> jsstring \<Rightarrow> nat option" where
  "m_delimited opn cls s =
     (if prefix opn s
      then map_option (\<lambda>k. length opn + k + length cls) (find_sub cls (drop (length opn) s))
      else None)"

text \<open>\<^verbatim>\<open>/<!--[\s\S]*?-->/\<close>\<close>

definition m_html_comment :: "jsstring \<Rightarrow> nat option" where
  "m_html_comment = m_delimited (js ''<!--'') (js ''-->'')"

text \<open>\<^verbatim>\<open>/\/\*[\s\S]*?\*\//\<close>\<close>

definition m_block_comment :: "jsstring \<Rightarrow> nat option" where
  "m_block_comment = m_delimited (js ''/*'') (js ''*/'')"

text \<open>
  \<^verbatim>\<open>/\/\/.*$/m\<close>: the dot matches every code unit but a line terminator, the greedy
  star runs to the end of the line, and there \<^verbatim>\<open>$\<close> holds (multiline).
\<close>

definition m_line_comment :: "jsstring \<Rightarrow> nat option" where
  "m_line_comment s =
     (if prefix (js ''//'') s
      then Some (2 + length (takeWhile (\<lambda>c. \<not> isLineTerminator c) (drop 2 s)))
      else None)"

text \<open>\<^verbatim>\<open>/\s+/\<close>: a greedy run of white space.\<close>

definition m_ws :: "jsstring \<Rightarrow> nat option" where
  "m_ws s = (let n = length (takeWhile isWhiteSpace s) in if n = 0 then None else Some n)"

text \<open>
  \<^verbatim>\<open>/;\s+/\<close> and \<^verbatim>\<open>/{\s+/\<close>: a code unit and the greedy run of white space behind
  it.
\<close>

definition m_chr_ws :: "cu \<Rightarrow> jsstring \<Rightarrow> nat option" where
  "m_chr_ws x s =
     (case s of
        [] \<Rightarrow> None
      | c # cs \<Rightarrow>
          (let n = length (takeWhile isWhiteSpace cs) in
             if c = x \<and> 0 < n then Some (Suc n) else None))"

text \<open>
  \<^verbatim>\<open>/\s+}/\<close> and, behind a first code unit, \<^verbatim>\<open>/>\s+</\<close>: the greedy run of white
  space must be followed by the code unit; giving back a part of the run never helps,
  since the next code unit is then white space.
\<close>

definition m_ws_chr :: "cu \<Rightarrow> jsstring \<Rightarrow> nat option" where
  "m_ws_chr x s =
     (let n = length (takeWhile isWhiteSpace s) in
        case dropWhile isWhiteSpace s of
          [] \<Rightarrow> None
        | c # cs \<Rightarrow> if 0 < n \<and> c = x then Some (Suc n) else None)"

definition m_gt_ws_lt :: "jsstring \<Rightarrow> nat option" where
  "m_gt_ws_lt s =
     (case s of
        [] \<Rightarrow> None
      | c # cs \<Rightarrow> if c = 0x3E then map_option Suc (m_ws_chr 0x3C cs) else None)"

text \<open>
  \<^verbatim>\<open>/<[^>]+>/\<close>: the class takes every code unit up to the next closing angle bracket,
  at least one.
\<close>

definition m_tag :: "jsstring \<Rightarrow> nat option" where
  "m_tag s =
     (case s of
        [] \<Rightarrow> None
      | c # cs \<Rightarrow>
          (let n = length (takeWhile (\<lambda>d. d \<noteq> 0x3E) cs) in
             if c = 0x3C \<and> 0 < n \<and> n < length cs then Some (n + 2) else None))"

text \<open>\<^verbatim>\<open>/[^{}]*\{[^{}]*\}/\<close>\<close>

definition notBrace :: "cu \<Rightarrow> bool" where
  "notBrace c \<longleftrightarrow> c \<noteq> 0x7B \<and> c \<noteq> 0x7D"

definition m_css_rule :: "jsstring \<Rightarrow> nat option" where
  "m_css_rule s =
     (case dropWhile notBrace s of
        [] \<Rightarrow> None
      | c # cs \<Rightarrow>
          if c = 0x7B then
            (case dropWhile notBrace cs of
               [] \<Rightarrow> None
             | d # ds \<Rightarrow>
                 if d = 0x7D
                 then Some (length (takeWhile notBrace s) + length (takeWhile notBrace cs) + 2)
                 else None)
          else None)"

text \<open>An alternative of literals: the first one, in the order written, that is a prefix.\<close>

fun m_alt :: "jsstring list \<Rightarrow> jsstring \<Rightarrow> nat option" where
  "m_alt [] s = None"
| "m_alt (p # ps) s = (if prefix p s then Some (length p) else m_alt ps s)"

definition js_markers :: "jsstring list" where
  "js_markers = map js [''function'', ''const'', ''let'', ''var'', ''class'', ''import'',
     ''export'', ''=>'']"

text \<open>\<^verbatim>\<open>/(?:function|const|let|var|class|import|export|=>)/\<close>\<close>

definition m_js :: "jsstring \<Rightarrow> nat option" where
  "m_js = m_alt js_markers"

definition isUpper :: "cu \<Rightarrow> bool" where
  "isUpper c \<longleftrightarrow> 0x41 \<le> c \<and> c \<le> 0x5A"

text \<open>\<^verbatim>\<open>/(?:function|const|let|var|class|import|export|=>|<[A-Z]|<\/[A-Z])/\<close>\<close>

definition m_jsx :: "jsstring \<Rightarrow> nat option" where
  "m_jsx s =
     (case m_alt js_markers s of
        Some n \<Rightarrow> Some n
      | None \<Rightarrow>
          (case s of
             a # b # r \<Rightarrow>
               if a = 0x3C \<and> isUpper b then Some 2
               else (case r of
                       c # r' \<Rightarrow> if a = 0x3C \<and> b = 0x2F \<and> isUpper c then Some 3 else None
                     | [] \<Rightarrow> None)
           | _ \<Rightarrow> None))"

section \<open>Numbers\<close>

text \<open>
  A Number is an IEEE 754 double: a finite value (a rational; \<open>Num 0\<close> is \<open>+0\<close>), the
  negative zero, an infinity or NaN.
\<close>

datatype number = Num rat | NegZero | PosInfinity | NegInfinity | NaN

definition pow2 :: "int \<Rightarrow> rat" where
  "pow2 e = (if 0 \<le> e then 2 ^ nat e else 1 / 2 ^ nat (- e))"

definition pow10 :: "int \<Rightarrow> rat" where
  "pow10 e = (if 0 \<le> e then 10 ^ nat e else 1 / 10 ^ nat (- e))"

text \<open>For \<open>0 < v\<close>, the integer \<open>e\<close> with \<open>b ^ e \<le> v < b ^ (e + 1)\<close>.\<close>

definition floorlog_rat :: "nat \<Rightarrow> rat \<Rightarrow> int" where
  "floorlog_rat b v =
     (if 1 \<le> v then int (floorlog b (nat \<lfloor>v\<rfloor>)) - 1
      else - int (floorlog b (nat (\<lceil>1 / v\<rceil> - 1))))"

definition round_half_even :: "rat \<Rightarrow> int" where
  "round_half_even x =
     (let f = \<lfloor>x\<rfloor>; r = x - of_int f in
        if r < 1 / 2 then f else if 1 / 2 < r then f + 1 else if even f then f else f + 1)"

text \<open>
  Rounding a positive real to the nearest double, ties to even: 53 bits of precision, the
  exponent of the last bit not below \<open>-1074\<close> (subnormals), and infinity from
  \<open>2 ^ 1024\<close> on.
\<close>

definition round_pos :: "rat \<Rightarrow> number" where
  "round_pos v =
     (let q = max (floorlog_rat 2 v - 52) (- 1074);
          r = of_int (round_half_even (v / pow2 q)) * pow2 q
      in if 2 ^ 1024 \<le> r then PosInfinity else Num r)"

fun js_negate :: "number \<Rightarrow> number" where
  "js_negate (Num x) = (if x = 0 then NegZero else Num (- x))"
| "js_negate NegZero = Num 0"
| "js_negate PosInfinity = NegInfinity"
| "js_negate NegInfinity = PosInfinity"
| "js_negate NaN = NaN"

definition to_double :: "rat \<Rightarrow> number" where
  "to_double v =
     (if v = 0 then Num 0 else if 0 < v then round_pos v else js_negate (round_pos (- v)))"

fun is_negative :: "number \<Rightarrow> bool" where
  "is_negative (Num x) = (x < 0)"
| "is_negative NegZero = True"
| "is_negative NegInfinity = True"
| "is_negative PosInfinity = False"
| "is_negative NaN = False"

fun is_infinite :: "number \<Rightarrow> bool" where
  "is_infinite PosInfinity = True"
| "is_infinite NegInfinity = True"
| "is_infinite _ = False"

fun is_zero :: "number \<Rightarrow> bool" where
  "is_zero (Num x) = (x = 0)"
| "is_zero NegZero = True"
| "is_zero _ = False"

fun real_value :: "number \<Rightarrow> rat" where
  "real_value (Num x) = x"
| "real_value _ = 0"

definition signed_zero :: "bool \<Rightarrow> number" where
  "signed_zero neg = (if neg then NegZero else Num 0)"

definition signed_infinity :: "bool \<Rightarrow> number" where
  "signed_infinity neg = (if neg then NegInfinity else PosInfinity)"

text \<open>The operators \<^verbatim>\<open>-\<close>, \<^verbatim>\<open>/\<close> and \<^verbatim>\<open>*\<close> on Numbers.\<close>

definition js_sub :: "number \<Rightarrow> number \<Rightarrow> number" where
  "js_sub x y =
     (if x = NaN \<or> y = NaN then NaN
      else if is_infinite x then (if y = x then NaN else x)
      else if is_infinite y then js_negate y
      else if is_zero x \<and> is_zero y then signed_zero (is_negative x \<and> \<not> is_negative y)
      else to_double (real_value x - real_value y))"

definition js_div :: "number \<Rightarrow> number \<Rightarrow> number" where
  "js_div x y =
     (let neg = (is_negative x \<noteq> is_negative y) in
        if x = NaN \<or> y = NaN then NaN
        else if is_infinite x then (if is_infinite y then NaN else signed_infinity neg)
        else if is_infinite y then signed_zero neg
        else if is_zero y then (if is_zero x then NaN else signed_infinity neg)
        else if is_zero x then signed_zero neg
        else to_double (real_value x / real_value y))"

definition js_mul :: "number \<Rightarrow> number \<Rightarrow> number" where
  "js_mul x y =
     (let neg = (is_negative x \<noteq> is_negative y) in
        if x = NaN \<or> y = NaN then NaN
        else if is_infinite x then (if is_zero y then NaN else signed_infinity neg)
        else if is_infinite y then (if is_zero x then NaN else signed_infinity neg)
        else if is_zero x \<or> is_zero y then signed_zero neg
        else to_double (real_value x * real_value y))"

text \<open>
  \<^verbatim>\<open>Math.round\<close>: the nearest integer, a tie towards \<open>+\<infinity>\<close>; a value in
  \<open>[-1/2, 0)\<close> gives \<open>-0\<close>.
\<close>

fun Math_round :: "number \<Rightarrow> number" where
  "Math_round (Num x) =
     (let r = \<lfloor>x + 1 / 2\<rfloor> in if r = 0 \<and> x < 0 then NegZero else Num (of_int r))"
| "Math_round n = n"

definition number_of_nat :: "nat \<Rightarrow> number" where
  "number_of_nat n = to_double (of_nat n)"

section \<open>JSON\<close>

text \<open>
  \<^verbatim>\<open>JSON.parse\<close> and \<^verbatim>\<open>JSON.stringify\<close> belong to the language (ECMA-262, 25.5). An
  object keeps its properties in the order of their creation; its keys are enumerated
  with the array indices first, in ascending order.
\<close>

datatype json =
    JNull
  | JBool bool
  | JNumber number
  | JString jsstring
  | JArray "json list"
  | JObject "(jsstring \<times> json) list"

datatype js_error = SyntaxError

definition isJsonWs :: "cu \<Rightarrow> bool" where
  "isJsonWs c \<longleftrightarrow> c = 0x20 \<or> c = 0x09 \<or> c = 0x0A \<or> c = 0x0D"

definition skip_ws :: "jsstring \<Rightarrow> jsstring" where
  "skip_ws s = dropWhile isJsonWs s"

definition isDigit :: "cu \<Rightarrow> bool" where
  "isDigit c \<longleftrightarrow> 0x30 \<le> c \<and> c \<le> 0x39"

definition digits_value :: "jsstring \<Rightarrow> nat" where
  "digits_value ds = foldl (\<lambda>a c. 10 * a + (unat c - 0x30)) 0 ds"

definition hex_value :: "cu \<Rightarrow> nat option" where
  "hex_value c =
     (if 0x30 \<le> c \<and> c \<le> 0x39 then Some (unat c - 0x30)
      else if 0x41 \<le> c \<and> c \<le> 0x46 then Some (unat c - 0x41 + 10)
      else if 0x61 \<le> c \<and> c \<le> 0x66 then Some (unat c - 0x61 + 10)
      else None)"

definition unescape :: "cu \<Rightarrow> cu option" where
  "unescape e =
     (if e = 0x22 then Some 0x22 else if e = 0x5C then Some 0x5C
      else if e = 0x2F then Some 0x2F else if e = 0x62 then Some 0x08
      else if e = 0x66 then Some 0x0C else if e = 0x6E then Some 0x0A
      else if e = 0x72 then Some 0x0D else if e = 0x74 then Some 0x09
      else None)"

definition cons_fst :: "'a \<Rightarrow> ('a list \<times> 'b) option \<Rightarrow> ('a list \<times> 'b) option" where
  "cons_fst x r = map_option (\<lambda>(xs, rest). (x # xs, rest)) r"

text \<open>The characters of a string literal behind its opening quote, and the rest.\<close>

fun parse_string_body :: "jsstring \<Rightarrow> (jsstring \<times> jsstring) option" where
  "parse_string_body [] = None"
| "parse_string_body (c # cs) =
     (if c = 0x22 then Some ([], cs)
      else if c = 0x5C then
        (case cs of
           [] \<Rightarrow> None
         | e # r \<Rightarrow>
             if e = 0x75 then
               (case r of
                  h1 # h2 # h3 # h4 # r' \<Rightarrow>
                    (case (hex_value h1, hex_value h2, hex_value h3, hex_value h4) of
                       (Some a, Some b, Some c', Some d) \<Rightarrow>
                         cons_fst (of_nat (((a * 16 + b) * 16 + c') * 16 + d))
                           (parse_string_body r')
                     | _ \<Rightarrow> None)
                | _ \<Rightarrow> None)
             else
               (case unescape e of
                  None \<Rightarrow> None
                | Some x \<Rightarrow> cons_fst x (parse_string_body r)))
      else if c < 0x20 then None
      else cons_fst c (parse_string_body cs))"

text \<open>
  A number literal: \<^verbatim>\<open>-? (0 | [1-9][0-9]*) (. [0-9]+)? ([eE] [+-]? [0-9]+)?\<close>. Its
  value is the double nearest to the decimal.
\<close>

definition parse_int_part :: "jsstring \<Rightarrow> (jsstring \<times> jsstring) option" where
  "parse_int_part s =
     (case s of
        [] \<Rightarrow> None
      | c # cs \<Rightarrow>
          if c = 0x30 then Some ([c], cs)
          else if isDigit c then Some (takeWhile isDigit s, dropWhile isDigit s)
          else None)"

definition parse_frac_part :: "jsstring \<Rightarrow> (jsstring \<times> jsstring) option" where
  "parse_frac_part s =
     (case s of
        [] \<Rightarrow> Some ([], s)
      | c # cs \<Rightarrow>
          if c = 0x2E then
            (if takeWhile isDigit cs = [] then None
             else Some (takeWhile isDigit cs, dropWhile isDigit cs))
          else Some ([], s))"

definition parse_exp_digits :: "bool \<Rightarrow> jsstring \<Rightarrow> (int \<times> jsstring) option" where
  "parse_exp_digits neg s =
     (if takeWhile isDigit s = [] then None
      else Some ((if neg then - int (digits_value (takeWhile isDigit s))
                  else int (digits_value (takeWhile isDigit s))), dropWhile isDigit s))"

definition parse_exp_part :: "jsstring \<Rightarrow> (int \<times> jsstring) option" where
  "parse_exp_part s =
     (case s of
        [] \<Rightarrow> Some (0, s)
      | c # cs \<Rightarrow>
          if c = 0x65 \<or> c = 0x45 then
            (case cs of
               [] \<Rightarrow> None
             | d # ds \<Rightarrow>
                 if d = 0x2B then parse_exp_digits False ds
                 else if d = 0x2D then parse_exp_digits True ds
                 else parse_exp_digits False cs)
          else Some (0, s))"

definition parse_unsigned :: "jsstring \<Rightarrow> (rat \<times> jsstring) option" where
  "parse_unsigned s =
     (case parse_int_part s of
        None \<Rightarrow> None
      | Some (ip, r1) \<Rightarrow>
          (case parse_frac_part r1 of
             None \<Rightarrow> None
           | Some (fp, r2) \<Rightarrow>
               (case parse_exp_part r2 of
                  None \<Rightarrow> None
                | Some (e, r3) \<Rightarrow>
                    Some (of_nat (digits_value (ip @ fp)) * pow10 (e - int (length fp)), r3))))"

definition parse_number :: "jsstring \<Rightarrow> (number \<times> jsstring) option" where
  "parse_number s =
     (case s of
        [] \<Rightarrow> None
      | c # cs \<Rightarrow>
          if c = 0x2D
          then map_option (\<lambda>(v, r). (js_negate (to_double v), r)) (parse_unsigned cs)
          else map_option (\<lambda>(v, r). (to_double v, r)) (parse_unsigned s))"

text \<open>
  A property definition: a key that exists already keeps its place and takes the new
  value.
\<close>

definition define_prop :: "(jsstring \<times> json) list \<Rightarrow> jsstring \<times> json \<Rightarrow> (jsstring \<times> json) list" where
  "define_prop ps kv =
     (if fst kv \<in> fst ` set ps
      then map (\<lambda>p. if fst p = fst kv then kv else p) ps
      else ps @ [kv])"

text \<open>
  The recursive descent. The tests on lengths hold always (a parser returns a proper
  suffix of its input, see \<open>parse_shorter\<close>); they are what makes the recursion
  well-founded on its face.
\<close>

function (sequential) parse_value :: "jsstring \<Rightarrow> (json \<times> jsstring) option"
  and parse_elements :: "jsstring \<Rightarrow> (json list \<times> jsstring) option"
  and parse_members :: "jsstring \<Rightarrow> ((jsstring \<times> json) list \<times> jsstring) option"
where
  "parse_value s =
     (case s of
        [] \<Rightarrow> None
      | c # cs \<Rightarrow>
          if c = 0x22 then map_option (\<lambda>(k, r). (JString k, r)) (parse_string_body cs)
          else if c = 0x5B then
            (case skip_ws cs of
               [] \<Rightarrow> None
             | d # ds \<Rightarrow>
                 if d = 0x5D then Some (JArray [], ds)
                 else map_option (\<lambda>(vs, r). (JArray vs, r)) (parse_elements (skip_ws cs)))
          else if c = 0x7B then
            (case skip_ws cs of
               [] \<Rightarrow> None
             | d # ds \<Rightarrow>
                 if d = 0x7D then Some (JObject [], ds)
                 else map_option (\<lambda>(kvs, r). (JObject (foldl define_prop [] kvs), r))
                        (parse_members (skip_ws cs)))
          else if prefix (js ''true'') s then Some (JBool True, drop 4 s)
          else if prefix (js ''false'') s then Some (JBool False, drop 5 s)
          else if prefix (js ''null'') s then Some (JNull, drop 4 s)
          else map_option (\<lambda>(n, r). (JNumber n, r)) (parse_number s))"
| "parse_elements s =
     (case parse_value s of
        None \<Rightarrow> None
      | Some (v, r) \<Rightarrow>
          (case skip_ws r of
             [] \<Rightarrow> None
           | d # ds \<Rightarrow>
               if d = 0x5D then Some ([v], ds)
               else if d = 0x2C \<and> length ds < length s
               then cons_fst v (parse_elements (skip_ws ds))
               else None))"
| "parse_members s =
     (case s of
        [] \<Rightarrow> None
      | c # cs \<Rightarrow>
          if c = 0x22 then
            (case parse_string_body cs of
               None \<Rightarrow> None
             | Some (k, r1) \<Rightarrow>
                 (case skip_ws r1 of
                    [] \<Rightarrow> None
                  | col # r2 \<Rightarrow>
                      if col = 0x3A \<and> length r2 < length s then
                        (case parse_value (skip_ws r2) of
                           None \<Rightarrow> None
                         | Some (v, r3) \<Rightarrow>
                             (case skip_ws r3 of
                                [] \<Rightarrow> None
                              | d # ds \<Rightarrow>
                                  if d = 0x7D then Some ([(k, v)], ds)
                                  else if d = 0x2C \<and> length ds < length s
                                  then cons_fst (k, v) (parse_members (skip_ws ds))
                                  else None))
                      else None))
          else None)"
  by pat_completeness auto

termination
proof (relation "measure (\<lambda>x. case x of Inl s \<Rightarrow> 2 * length s
                                      | Inr (Inl s) \<Rightarrow> 2 * length s + 1
                                      | Inr (Inr s) \<Rightarrow> 2 * length s + 1)", goal_cases)
  case 1
  show ?case by simp
next
  case (2 s c cs d ds)
  then show ?case
    using length_dropWhile_le [of isJsonWs cs] by (simp add: skip_ws_def)
next
  case (3 s c cs d ds)
  then show ?case
    using length_dropWhile_le [of isJsonWs cs] by (simp add: skip_ws_def)
next
  case 4
  show ?case by simp
next
  case (5 s p v r d ds)
  then show ?case
    using length_dropWhile_le [of isJsonWs ds] by (simp add: skip_ws_def)
next
  case (6 s c cs p k r1 col r2)
  then show ?case
    using length_dropWhile_le [of isJsonWs r2] by (simp add: skip_ws_def)
next
  case (7 s c cs p k r1 col r2 q v r3 d ds)
  then show ?case
    using length_dropWhile_le [of isJsonWs ds] by (simp add: skip_ws_def)
qed

definition JSON_parse :: "jsstring \<Rightarrow> js_error + json" where
  "JSON_parse s =
     (case parse_value (skip_ws s) of
        None \<Rightarrow> Inl SyntaxError
      | Some (v, r) \<Rightarrow> if skip_ws r = [] then Inr v else Inl SyntaxError)"

text \<open>
  \<^verbatim>\<open>Number::toString\<close>: the digits \<open>s\<close> (there are \<open>k\<close> of them) and the exponent
  \<open>n\<close> with \<open>s * 10 ^ (n - k)\<close> rounding to the number and \<open>k\<close> as small as possible;
  among several \<open>s\<close> the one nearest to the number.
\<close>

function dec_digits :: "nat \<Rightarrow> jsstring" where
  "dec_digits n =
     (if n < 10 then [of_nat (0x30 + n)]
      else dec_digits (n div 10) @ [of_nat (0x30 + n mod 10)])"
  by pat_completeness auto
termination
  by (relation "measure id") auto

definition digit_candidates :: "rat \<Rightarrow> nat \<Rightarrow> (int \<times> nat) list" where
  "digit_candidates x k =
     (let n = floorlog_rat 10 x + 1; lo = nat \<lfloor>x / pow10 (n - int k)\<rfloor> in
        [(n, lo), (if lo + 1 = 10 ^ k then (n + 1, 10 ^ (k - 1)) else (n, lo + 1))])"

definition digits_value_at :: "nat \<Rightarrow> int \<times> nat \<Rightarrow> rat" where
  "digits_value_at k c = of_nat (snd c) * pow10 (fst c - int k)"

definition digits_valid :: "rat \<Rightarrow> nat \<Rightarrow> int \<times> nat \<Rightarrow> bool" where
  "digits_valid x k c \<longleftrightarrow> to_double (digits_value_at k c) = Num x"

definition closer :: "rat \<Rightarrow> nat \<Rightarrow> int \<times> nat \<Rightarrow> int \<times> nat \<Rightarrow> int \<times> nat" where
  "closer x k c1 c2 =
     (let d1 = \<bar>digits_value_at k c1 - x\<bar>; d2 = \<bar>digits_value_at k c2 - x\<bar> in
        if d1 < d2 then c1 else if d2 < d1 then c2 else if even (snd c1) then c1 else c2)"

fun shortest_digits :: "nat \<Rightarrow> nat \<Rightarrow> rat \<Rightarrow> int \<times> nat" where
  "shortest_digits 0 k x =
     (case digit_candidates x k of c1 # c2 # _ \<Rightarrow> closer x k c1 c2 | _ \<Rightarrow> (0, 0))"
| "shortest_digits (Suc fuel) k x =
     (case filter (digits_valid x k) (digit_candidates x k) of
        [] \<Rightarrow> shortest_digits fuel (Suc k) x
      | [c] \<Rightarrow> c
      | c1 # c2 # _ \<Rightarrow> closer x k c1 c2)"

text \<open>
  The search for the least \<open>k\<close> ends: a double is a multiple of \<open>2 ^ - 1074\<close> below
  \<open>2 ^ 1024\<close>, so that its exact decimal has fewer than 1400 digits. The bound only makes
  the search a total function.
\<close>

definition number_digits :: "rat \<Rightarrow> int \<times> nat" where
  "number_digits x = shortest_digits 1400 1 x"

definition format_digits :: "int \<times> nat \<Rightarrow> jsstring" where
  "format_digits c =
     (let n = fst c; ds = dec_digits (snd c); k = int (length ds) in
        if k \<le> n \<and> n \<le> 21 then ds @ replicate (nat (n - k)) 0x30
        else if 0 < n \<and> n \<le> 21 then take (nat n) ds @ [0x2E] @ drop (nat n) ds
        else if - 6 < n \<and> n \<le> 0 then [0x30, 0x2E] @ replicate (nat (- n)) 0x30 @ ds
        else
          (let es = [0x65, if 0 \<le> n - 1 then 0x2B else 0x2D] @ dec_digits (nat \<bar>n - 1\<bar>) in
             if k = 1 then ds @ es else take 1 ds @ [0x2E] @ drop 1 ds @ es))"

fun Number_toString :: "number \<Rightarrow> jsstring" where
  "Number_toString (Num x) =
     (if x = 0 then js ''0''
      else if x < 0 then [0x2D] @ format_digits (number_digits (- x))
      else format_digits (number_digits x))"
| "Number_toString NegZero = js ''0''"
| "Number_toString PosInfinity = js ''Infinity''"
| "Number_toString NegInfinity = js ''-Infinity''"
| "Number_toString NaN = js ''NaN''"

text \<open>
  \<^verbatim>\<open>QuoteJSONString\<close>: the string is read by code points; a control character and a
  lone surrogate are escaped.
\<close>

definition hex_digit :: "nat \<Rightarrow> cu" where
  "hex_digit n = (if n < 10 then of_nat (0x30 + n) else of_nat (0x61 + (n - 10)))"

definition unicode_escape :: "cu \<Rightarrow> jsstring" where
  "unicode_escape c =
     [0x5C, 0x75, hex_digit (unat c div 0x1000), hex_digit (unat c div 0x100 mod 0x10),
      hex_digit (unat c div 0x10 mod 0x10), hex_digit (unat c mod 0x10)]"

fun quote_chars :: "jsstring \<Rightarrow> jsstring" where
  "quote_chars [] = []"
| "quote_chars (c # cs) =
     (if c = 0x08 then [0x5C, 0x62] @ quote_chars cs
      else if c = 0x09 then [0x5C, 0x74] @ quote_chars cs
      else if c = 0x0A then [0x5C, 0x6E] @ quote_chars cs
      else if c = 0x0C then [0x5C, 0x66] @ quote_chars cs
      else if c = 0x0D then [0x5C, 0x72] @ quote_chars cs
      else if c = 0x22 then [0x5C, 0x22] @ quote_chars cs
      else if c = 0x5C then [0x5C, 0x5C] @ quote_chars cs
      else if c < 0x20 then unicode_escape c @ quote_chars cs
      else if isHighSurrogate c then
        (case cs of
           [] \<Rightarrow> unicode_escape c
         | d # ds \<Rightarrow>
             if isLowSurrogate d then c # d # quote_chars ds
             else unicode_escape c @ quote_chars cs)
      else if isLowSurrogate c then unicode_escape c @ quote_chars cs
      else c # quote_chars cs)"

definition QuoteJSONString :: "jsstring \<Rightarrow> jsstring" where
  "QuoteJSONString s = [0x22] @ quote_chars s @ [0x22]"

text \<open>An array index is the canonical decimal of an integer below \<open>2 ^ 32 - 1\<close>.\<close>

definition is_array_index :: "jsstring \<Rightarrow> bool" where
  "is_array_index k \<longleftrightarrow>
     k \<noteq> [] \<and> list_all isDigit k \<and> (k = [0x30] \<or> hd k \<noteq> 0x30) \<and> digits_value k < 4294967295"

definition own_property_order :: "(jsstring \<times> 'a) list \<Rightarrow> (jsstring \<times> 'a) list" where
  "own_property_order ps =
     sort_key (\<lambda>p. digits_value (fst p)) (filter (\<lambda>p. is_array_index (fst p)) ps)
     @ filter (\<lambda>p. \<not> is_array_index (fst p)) ps"

fun join_comma :: "jsstring list \<Rightarrow> jsstring" where
  "join_comma [] = []"
| "join_comma [x] = x"
| "join_comma (x # y # r) = x @ [0x2C] @ join_comma (y # r)"

text \<open>
  \<^verbatim>\<open>JSON.stringify\<close> of a value that \<^verbatim>\<open>JSON.parse\<close> has given. An engine gives up on
  a value nested deeper than its call stack allows (a \<^verbatim>\<open>RangeError\<close>); that limit is no
  part of the language and is left out here, so that what is proved about JSON texts is
  stated for the case that \<^verbatim>\<open>mockMinify\<close> returns.
\<close>

fun JSON_serialize :: "json \<Rightarrow> jsstring" where
  "JSON_serialize JNull = js ''null''"
| "JSON_serialize (JBool b) = (if b then js ''true'' else js ''false'')"
| "JSON_serialize (JNumber n) =
     (if is_infinite n \<or> n = NaN then js ''null'' else Number_toString n)"
| "JSON_serialize (JString s) = QuoteJSONString s"
| "JSON_serialize (JArray vs) = [0x5B] @ join_comma (map JSON_serialize vs) @ [0x5D]"
| "JSON_serialize (JObject ps) =
     [0x7B]
     @ join_comma (map (\<lambda>p. QuoteJSONString (fst p) @ [0x3A] @ snd p)
         (own_property_order (map (\<lambda>p. (fst p, JSON_serialize (snd p))) ps)))
     @ [0x7D]"

definition JSON_stringify :: "json \<Rightarrow> jsstring" where
  "JSON_stringify v = JSON_serialize v"

section \<open>The application\<close>

datatype FileType = T_html | T_css | T_json | T_js | T_jsx

text \<open>
  A message is a text of the program, or the prefix \<^verbatim>\<open>Invalid <TYPE>: \<close> followed by
  the message of a caught error, which the engine words.
\<close>

datatype message = Text jsstring | InvalidType FileType js_error

record ValidationResult =
  isValid :: bool
  error :: "message option"

record MinificationResult =
  minified :: jsstring
  originalSize :: nat
  minifiedSize :: nat
  reductionPercentage :: number

definition valid :: ValidationResult where
  "valid = \<lparr>isValid = True, error = None\<rparr>"

definition invalid :: "message \<Rightarrow> ValidationResult" where
  "invalid msg = \<lparr>isValid = False, error = Some msg\<rparr>"

fun toUpperCase_type :: "FileType \<Rightarrow> jsstring" where
  "toUpperCase_type T_html = js ''HTML''"
| "toUpperCase_type T_css = js ''CSS''"
| "toUpperCase_type T_json = js ''JSON''"
| "toUpperCase_type T_js = js ''JS''"
| "toUpperCase_type T_jsx = js ''JSX''"

fun fileTypeExtensions :: "FileType \<Rightarrow> jsstring list" where
  "fileTypeExtensions T_html = [js ''.html'', js ''.htm'']"
| "fileTypeExtensions T_css = [js ''.css'']"
| "fileTypeExtensions T_json = [js ''.json'']"
| "fileTypeExtensions T_js = [js ''.js'']"
| "fileTypeExtensions T_jsx = [js ''.jsx'']"

fun validateContent :: "jsstring \<Rightarrow> FileType \<Rightarrow> ValidationResult" where
  "validateContent content type =
     (if trim content = [] then invalid (Text (js ''Content cannot be empty''))
      else
        (case type of
           T_html \<Rightarrow>
             if \<not> regex_test m_tag content
             then invalid (Text (js ''Invalid HTML: No valid HTML tags found''))
             else valid
         | T_css \<Rightarrow>
             if \<not> regex_test m_css_rule (replace_all m_block_comment [] content)
             then invalid (Text (js ''Invalid CSS: No valid CSS rules found''))
             else valid
         | T_json \<Rightarrow>
             (case JSON_parse content of
                Inl e \<Rightarrow> invalid (InvalidType type e)
              | Inr v \<Rightarrow> valid)
         | T_js \<Rightarrow>
             if \<not> regex_test m_js content
             then invalid (Text (js ''Invalid '' @ toUpperCase_type type
                                 @ js '': No valid JavaScript syntax found''))
             else valid
         | T_jsx \<Rightarrow>
             if \<not> regex_test m_jsx content
             then invalid (Text (js ''Invalid '' @ toUpperCase_type type
                                 @ js '': No valid JSX syntax found''))
             else valid))"

text \<open>\<^verbatim>\<open>mockMinify\<close>; the JSON branch throws what \<^verbatim>\<open>JSON.parse\<close> throws.\<close>

fun mockMinify :: "jsstring \<Rightarrow> FileType \<Rightarrow> js_error + jsstring" where
  "mockMinify content T_html =
     Inr (trim
       (replace_all m_gt_ws_lt (js ''><'')
         (replace_all m_ws (js '' '')
           (replace_all m_html_comment [] content))))"
| "mockMinify content T_css =
     Inr (trim
       (replace_all (m_ws_chr 0x7D) (js ''}'')
         (replace_all (m_chr_ws 0x7B) (js ''{'')
           (replace_all (m_chr_ws 0x3B) (js '';'')
             (replace_all m_ws (js '' '')
               (replace_all m_block_comment [] content))))))"
| "mockMinify content T_json =
     (case JSON_parse content of
        Inl e \<Rightarrow> Inl e
      | Inr v \<Rightarrow> Inr (JSON_stringify v))"
| "mockMinify content type =
     Inr (trim
       (replace_all (m_ws_chr 0x7D) (js ''}'')
         (replace_all (m_chr_ws 0x7B) (js ''{'')
           (replace_all (m_chr_ws 0x3B) (js '';'')
             (replace_all m_ws (js '' '')
               (replace_all m_block_comment []
                 (replace_all m_line_comment [] content)))))))"

datatype InputMethod = Upload | Paste

record AppState =
  inputMethod :: InputMethod
  selectedFileType :: FileType
  inputCode :: jsstring
  fileName :: jsstring
  validation :: ValidationResult
  minificationResult :: "MinificationResult option"
  isProcessing :: bool

text \<open>
  \<^verbatim>\<open>handleMinify\<close>, as a step on the state of the component; the second component is the
  error the promise is rejected with, if \<^verbatim>\<open>mockMinify\<close> throws. The pause of 1500 ms is
  left out.
\<close>

definition reduction :: "nat \<Rightarrow> nat \<Rightarrow> number" where
  "reduction orig mini =
     Math_round
       (js_mul
          (js_div (js_sub (number_of_nat orig) (number_of_nat mini)) (number_of_nat orig))
          (Num 100))"

definition handleMinify :: "AppState \<Rightarrow> AppState \<times> js_error option" where
  "handleMinify st =
     (if \<not> isValid (validation st) \<or> trim (inputCode st) = [] then (st, None)
      else
        (case mockMinify (inputCode st) (selectedFileType st) of
           Inl e \<Rightarrow> (st\<lparr>isProcessing := True\<rparr>, Some e)
         | Inr m \<Rightarrow>
             (st\<lparr>minificationResult :=
                   Some \<lparr>minified = m,
                         originalSize = blob_size (inputCode st),
                         minifiedSize = blob_size m,
                         reductionPercentage = reduction (blob_size (inputCode st)) (blob_size m)\<rparr>,
                 isProcessing := False\<rparr>, None)))"

text \<open>
  \<^verbatim>\<open>handleFileUpload\<close>: the file has a name, a size in bytes and, once read, a text.
  \<^verbatim>\<open>toLowerCase\<close> is the method of the language, taken as a parameter.
\<close>

record File =
  file_name :: jsstring
  file_size :: nat
  file_text :: jsstring

text \<open>\<^verbatim>\<open>name.split(".").pop()\<close>: what stands behind the last dot.\<close>

definition last_segment :: "jsstring \<Rightarrow> jsstring" where
  "last_segment s = rev (takeWhile (\<lambda>c. c \<noteq> 0x2E) (rev s))"

fun join_with :: "jsstring \<Rightarrow> jsstring list \<Rightarrow> jsstring" where
  "join_with sep [] = []"
| "join_with sep [x] = x"
| "join_with sep (x # y # r) = x @ sep @ join_with sep (y # r)"

definition handleFileUpload ::
  "(jsstring \<Rightarrow> jsstring) \<Rightarrow> AppState \<Rightarrow> File option \<Rightarrow> AppState" where
  "handleFileUpload toLowerCase st ev =
     (case ev of
        None \<Rightarrow> st
      | Some file \<Rightarrow>
          if file_size file > 1024 * 1024
          then st\<lparr>validation := invalid (Text (js ''File size exceeds 1MB limit''))\<rparr>
          else
            (let fileExtension = js ''.'' @ toLowerCase (last_segment (file_name file));
                 validExtensions = fileTypeExtensions (selectedFileType st)
             in if fileExtension \<notin> set validExtensions
                then st\<lparr>validation := invalid (Text
                         (js ''File extension '' @ fileExtension
                          @ js '' does not match selected type ''
                          @ toUpperCase_type (selectedFileType st)
                          @ js ''. Expected: '' @ join_with (js '', '') validExtensions))\<rparr>
                else st\<lparr>fileName := file_name file,
                        inputCode := file_text file,
                        validation := validateContent (file_text file) (selectedFileType st)\<rparr>))"

text \<open>\<^verbatim>\<open>handleCodeChange\<close>: a pasted text is validated as it is, whatever its size.\<close>

definition handleCodeChange :: "AppState \<Rightarrow> jsstring \<Rightarrow> AppState" where
  "handleCodeChange st v =
     (if inputMethod st = Paste
      then st\<lparr>inputCode := v, validation := validateContent v (selectedFileType st)\<rparr>
      else st\<lparr>inputCode := v\<rparr>)"

section \<open>Notions used in the properties\<close>

text \<open>A matcher is proper when its matches are not empty and lie within the text.\<close>

definition proper :: "(jsstring \<Rightarrow> nat option) \<Rightarrow> bool" where
  "proper m \<longleftrightarrow> (\<forall>s n. m s = Some n \<longrightarrow> 0 < n \<and> n \<le> length s)"

fun has_adj :: "('a \<Rightarrow> 'a \<Rightarrow> bool) \<Rightarrow> 'a list \<Rightarrow> bool" where
  "has_adj R (x # y # zs) = (R x y \<or> has_adj R (y # zs))"
| "has_adj R _ = False"

text \<open>
  White space is clean when every white-space character is a space and no two stand side
  by side.
\<close>

definition ws_clean :: "jsstring \<Rightarrow> bool" where
  "ws_clean s \<longleftrightarrow>
     list_all (\<lambda>c. if isWhiteSpace c then c = 0x20 else True) s \<and>
     \<not> has_adj (\<lambda>a b. isWhiteSpace a \<and> isWhiteSpace b) s"

text \<open>A text is trimmed when it neither begins nor ends with white space.\<close>

definition trimmed :: "jsstring \<Rightarrow> bool" where
  "trimmed s \<longleftrightarrow> (case s of [] \<Rightarrow> True | c # cs \<Rightarrow> \<not> isWhiteSpace c \<and> \<not> isWhiteSpace (last s))"

text \<open>Two slashes side by side.\<close>

abbreviation slashes :: "cu \<Rightarrow> cu \<Rightarrow> bool" where
  "slashes \<equiv> \<lambda>a b. a = 0x2F \<and> b = 0x2F"

text \<open>
  Looking for a block comment from the left: outside, behind a slash, inside a comment,
  inside behind a star, and behind the end of a comment.
\<close>

abbreviation star_slash :: "cu \<Rightarrow> cu \<Rightarrow> bool" where
  "star_slash \<equiv> \<lambda>a b. a = 0x2A \<and> b = 0x2F"

datatype cstate = Outside | Slash | Inside | Star | Closed

fun comment_step :: "cstate \<Rightarrow> cu \<Rightarrow> cstate" where
  "comment_step Outside c = (if c = 0x2F then Slash else Outside)"
| "comment_step Slash c = (if c = 0x2A then Inside else if c = 0x2F then Slash else Outside)"
| "comment_step Inside c = (if c = 0x2A then Star else Inside)"
| "comment_step Star c = (if c = 0x2F then Closed else if c = 0x2A then Star else Inside)"
| "comment_step Closed c = Closed"

text \<open>What a character other than slash and star does to the state.\<close>

fun neutral :: "cstate \<Rightarrow> cstate" where
  "neutral Outside = Outside"
| "neutral Slash = Outside"
| "neutral Inside = Inside"
| "neutral Star = Inside"
| "neutral Closed = Closed"

text \<open>The passes on white space that the stylesheet and the script branch share.\<close>

definition ws_passes :: "jsstring \<Rightarrow> jsstring" where
  "ws_passes s =
     trim
       (replace_all (m_ws_chr 0x7D) [0x7D]
         (replace_all (m_chr_ws 0x7B) [0x7B]
           (replace_all (m_chr_ws 0x3B) [0x3B]
             (replace_all m_ws [0x20] s))))"

text \<open>What holds of a text behind the white-space passes, and makes them leave it alone.\<close>

definition settled :: "jsstring \<Rightarrow> bool" where
  "settled s \<longleftrightarrow>
     ws_clean s \<and> trimmed s \<and>
     \<not> has_adj (\<lambda>a b. a = 0x3B \<and> isWhiteSpace b) s \<and>
     \<not> has_adj (\<lambda>a b. a = 0x7B \<and> isWhiteSpace b) s \<and>
     \<not> has_adj (\<lambda>a b. isWhiteSpace a \<and> b = 0x7D) s"

text \<open>
  Looking for \<^verbatim>\<open>>\<close>, white space and \<^verbatim>\<open><\<close> from the left; and whether, behind
  white space or none, an opening angle bracket comes next.
\<close>

datatype gstate = G_start | G_gt | G_ws | G_found

fun gap_step :: "gstate \<Rightarrow> cu \<Rightarrow> gstate" where
  "gap_step G_start c = (if c = 0x3E then G_gt else G_start)"
| "gap_step G_gt c = (if isWhiteSpace c then G_ws else if c = 0x3E then G_gt else G_start)"
| "gap_step G_ws c =
     (if isWhiteSpace c then G_ws else if c = 0x3C then G_found
      else if c = 0x3E then G_gt else G_start)"
| "gap_step G_found c = G_found"

definition lt_ahead :: "jsstring \<Rightarrow> bool" where
  "lt_ahead s = (case dropWhile isWhiteSpace s of [] \<Rightarrow> False | d # _ \<Rightarrow> d = 0x3C)"

text \<open>The bytes of a code unit that is not half of a pair.\<close>

definition unit_size :: "cu \<Rightarrow> nat" where
  "unit_size c =
     (if isHighSurrogate c \<or> isLowSurrogate c then 3 else if c < 0x80 then 1
      else if c < 0x800 then 2 else 3)"

text \<open>
  A replacement shrinks when no match splits a surrogate pair at its ends and the
  replacement has no more bytes than the match.
\<close>

definition shrinks :: "(jsstring \<Rightarrow> nat option) \<Rightarrow> jsstring \<Rightarrow> bool" where
  "shrinks m rep \<longleftrightarrow>
     (\<forall>s n. m s = Some n \<longrightarrow>
        \<not> isLowSurrogate (hd s) \<and>
        (drop n s = [] \<or> \<not> isHighSurrogate (last (take n s)) \<or> \<not> isLowSurrogate (hd (drop n s))) \<and>
        blob_size rep \<le> blob_size (take n s))"

definition shrinks_strictly :: "(jsstring \<Rightarrow> nat option) \<Rightarrow> jsstring \<Rightarrow> bool" where
  "shrinks_strictly m rep \<longleftrightarrow>
     shrinks m rep \<and> (\<forall>s n. m s = Some n \<longrightarrow> blob_size rep < blob_size (take n s))"

text \<open>
  What the program takes for a comment, kind by kind; and a text is redundant when it holds
  such a comment or two white-space characters side by side.
\<close>

abbreviation ws_pair :: "cu \<Rightarrow> cu \<Rightarrow> bool" where
  "ws_pair \<equiv> \<lambda>a b. isWhiteSpace a \<and> isWhiteSpace b"

fun has_comment :: "FileType \<Rightarrow> jsstring \<Rightarrow> bool" where
  "has_comment T_html s = regex_test m_html_comment s"
| "has_comment T_css s = regex_test m_block_comment s"
| "has_comment T_json s = False"
| "has_comment type s = (regex_test m_line_comment s \<or> regex_test m_block_comment s)"

definition redundant :: "FileType \<Rightarrow> jsstring \<Rightarrow> bool" where
  "redundant type s \<longleftrightarrow> has_comment type s \<or> has_adj ws_pair s"

text \<open>
  A positive double is a positive rational that rounding leaves as it is; the Numbers that
  \<^verbatim>\<open>JSON.parse\<close> can give are zero, such a double with a sign, the negative zero and
  the infinities.
\<close>

definition pos_double :: "rat \<Rightarrow> bool" where
  "pos_double x \<longleftrightarrow> 0 < x \<and> round_pos x = Num x"

definition double_number :: "number \<Rightarrow> bool" where
  "double_number n \<longleftrightarrow>
     (case n of Num x \<Rightarrow> x = 0 \<or> pos_double \<bar>x\<bar> | NaN \<Rightarrow> False | _ \<Rightarrow> True)"

text \<open>
  What may follow a value in the text that \<^verbatim>\<open>JSON.stringify\<close> writes: nothing, a comma
  or a closing bracket.
\<close>

definition delim :: "jsstring \<Rightarrow> bool" where
  "delim r \<longleftrightarrow> (case r of [] \<Rightarrow> True | c # _ \<Rightarrow> c = 0x2C \<or> c = 0x5D \<or> c = 0x7D)"

text \<open>
  A value is well formed when its numbers are such Numbers and the keys of each of its
  objects are distinct; these are the values that \<^verbatim>\<open>JSON.parse\<close> gives.
\<close>

fun well_formed :: "json \<Rightarrow> bool" where
  "well_formed (JNumber n) = double_number n"
| "well_formed (JArray vs) = list_all well_formed vs"
| "well_formed (JObject ps) = (distinct (map fst ps) \<and> list_all (\<lambda>p. well_formed (snd p)) ps)"
| "well_formed _ = True"

text \<open>
  The value read back from the text written for a value: an infinity has become
  \<^verbatim>\<open>null\<close>, the negative zero has become zero, and the properties of an object stand
  in the order of enumeration.
\<close>

fun reparsed :: "json \<Rightarrow> json" where
  "reparsed (JNumber n) =
     (if is_infinite n \<or> n = NaN then JNull
      else if n = NegZero then JNumber (Num 0) else JNumber n)"
| "reparsed (JArray vs) = JArray (map reparsed vs)"
| "reparsed (JObject ps) =
     JObject (own_property_order (map (\<lambda>p. (fst p, reparsed (snd p))) ps))"
| "reparsed v = v"




section \<open>Evaluation\<close>

lemmas eval_defs =
  js_def trim_def isWhiteSpace_def isLineTerminator_def m_delimited_def m_html_comment_def
  m_block_comment_def m_line_comment_def m_ws_def m_chr_ws_def m_ws_chr_def m_gt_ws_lt_def
  m_tag_def notBrace_def m_css_rule_def js_markers_def m_js_def isUpper_def m_jsx_def
  valid_def invalid_def Let_def replace_all.simps

section \<open>Replacement with a proper matcher\<close>

lemma proper_Nil: "proper m \<Longrightarrow> m [] = None"
proof (cases "m []")
  case (Some n)
  assume "proper m"
  with Some have "0 < n \<and> n \<le> length ([] :: jsstring)" unfolding proper_def by blast
  then show ?thesis by auto
qed simp

lemma replace_all_Nil_proper: "proper m \<Longrightarrow> replace_all m rep [] = []"
  by (simp add: proper_Nil)

lemma replace_all_Cons_proper:
  "proper m \<Longrightarrow> replace_all m rep (c # cs) =
     (case m (c # cs) of None \<Rightarrow> c # replace_all m rep cs
      | Some n \<Rightarrow> rep @ replace_all m rep (drop n (c # cs)))"
  by (auto simp: proper_def split: option.splits nat.splits)

lemma replace_all_invariant:
  assumes m: "proper m"
    and step: "\<And>pre s n. m s = Some n \<Longrightarrow> I (pre @ s) \<Longrightarrow> I (pre @ rep @ drop n s)"
  shows "I (pre @ s) \<Longrightarrow> I (pre @ replace_all m rep s)"
proof (induction s arbitrary: pre rule: length_induct)
  case (1 s)
  show ?case
  proof (cases s)
    case Nil
    with 1 m show ?thesis by (simp add: proper_Nil)
  next
    case (Cons c cs)
    show ?thesis
    proof (cases "m s")
      case None
      have "I ((pre @ [c]) @ replace_all m rep cs)"
        using 1 Cons by (intro 1(1) [rule_format]) simp_all
      with None Cons m show ?thesis by (simp del: replace_all.simps add: replace_all_Cons_proper)
    next
      case (Some n)
      with m have n: "0 < n" "n \<le> length s" by (auto simp: proper_def)
      have "I ((pre @ rep) @ replace_all m rep (drop n s))"
        using step [OF Some 1(2)] n Cons by (intro 1(1) [rule_format]) simp_all
      with Some Cons m show ?thesis by (simp del: replace_all.simps add: replace_all_Cons_proper)
    qed
  qed
qed

lemma replace_all_id:
  "proper m \<Longrightarrow> \<not> regex_test m s \<Longrightarrow> replace_all m rep s = s"
  by (induction s) (auto simp del: replace_all.simps simp: replace_all_Nil_proper replace_all_Cons_proper)

lemma regex_test_iff: "regex_test m s \<longleftrightarrow> (\<exists>t. suffix t s \<and> m t \<noteq> None)"
  by (induction s) (auto simp: suffix_Cons)

lemma has_adj_Cons: "has_adj R (x # ys) \<longleftrightarrow> (ys \<noteq> [] \<and> R x (hd ys)) \<or> has_adj R ys"
  by (cases ys) auto

lemma has_adj_append:
  "has_adj R (xs @ ys) \<longleftrightarrow>
     has_adj R xs \<or> has_adj R ys \<or> (xs \<noteq> [] \<and> ys \<noteq> [] \<and> R (last xs) (hd ys))"
  by (induction xs) (auto simp: has_adj_Cons)

lemma trim_Nil_iff: "trim s = [] \<longleftrightarrow> (\<forall>c \<in> set s. isWhiteSpace c)"
proof (cases "dropWhile isWhiteSpace s")
  case Nil
  then show ?thesis by (auto simp: trim_def dropWhile_eq_Nil_conv dest: set_dropWhileD)
next
  case (Cons c cs)
  then have "\<not> isWhiteSpace c" "c \<in> set s"
    using hd_dropWhile [of isWhiteSpace s] set_dropWhileD [of c isWhiteSpace s] by auto
  with Cons show ?thesis by (auto simp: trim_def dropWhile_eq_Nil_conv)
qed

lemma regex_test_m_alt: "regex_test (m_alt ps) s \<longleftrightarrow> (\<exists>p \<in> set ps. sublist p s)"
proof -
  have "m_alt ps t \<noteq> None \<longleftrightarrow> (\<exists>p \<in> set ps. prefix p t)" for t
    by (induction ps) auto
  then show ?thesis
    by (auto simp: regex_test_iff sublist_altdef')
qed

declare replace_all.simps [simp del]

lemma replace_all_invariant2:
  assumes m: "proper m"
    and stepN: "\<And>pre c cs. m (c # cs) = None \<Longrightarrow> I pre (c # cs) \<Longrightarrow> I (pre @ [c]) cs"
    and stepS: "\<And>pre s n. m s = Some n \<Longrightarrow> I pre s \<Longrightarrow> I (pre @ rep) (drop n s)"
  shows "I pre s \<Longrightarrow> I (pre @ replace_all m rep s) []"
proof (induction s arbitrary: pre rule: length_induct)
  case (1 s)
  show ?case
  proof (cases s)
    case Nil
    with 1 m show ?thesis by (simp add: replace_all_Nil_proper)
  next
    case (Cons c cs)
    show ?thesis
    proof (cases "m s")
      case None
      have "I ((pre @ [c]) @ replace_all m rep cs) []"
        using 1 Cons None stepN [of c cs pre] by (intro 1(1) [rule_format]) simp_all
      with None Cons m show ?thesis by (simp add: replace_all_Cons_proper)
    next
      case (Some n)
      with m have n: "0 < n" "n \<le> length s" by (auto simp: proper_def)
      have "I ((pre @ rep) @ replace_all m rep (drop n s)) []"
        using stepS [OF Some 1(2)] n Cons by (intro 1(1) [rule_format]) simp_all
      with Some Cons m show ?thesis by (simp add: replace_all_Cons_proper)
    qed
  qed
qed

section \<open>What a match looks like\<close>

lemma m_ws_Some:
  "m_ws s = Some n \<longleftrightarrow> n = length (takeWhile isWhiteSpace s) \<and> takeWhile isWhiteSpace s \<noteq> []"
  by (auto simp: m_ws_def Let_def)

lemma m_ws_None: "m_ws s = None \<longleftrightarrow> (s = [] \<or> \<not> isWhiteSpace (hd s))"
  by (cases s) (auto simp: m_ws_def Let_def)

lemma m_ws_SomeE:
  assumes "m_ws s = Some n"
  obtains w ws r where "s = w # ws @ r" "isWhiteSpace w" "\<forall>c \<in> set ws. isWhiteSpace c"
    "r = [] \<or> \<not> isWhiteSpace (hd r)" "n = Suc (length ws)" "drop n s = r"
proof -
  from assms have n: "n = length (takeWhile isWhiteSpace s)" and ne: "takeWhile isWhiteSpace s \<noteq> []"
    by (auto simp: m_ws_Some)
  from ne obtain w cs where s: "s = w # cs" and w: "isWhiteSpace w"
    by (cases s) (auto split: if_splits)
  have "s = w # takeWhile isWhiteSpace cs @ dropWhile isWhiteSpace cs" by (simp add: s)
  moreover have "dropWhile isWhiteSpace cs = [] \<or> \<not> isWhiteSpace (hd (dropWhile isWhiteSpace cs))"
    using hd_dropWhile [of isWhiteSpace cs] by blast
  moreover have "n = Suc (length (takeWhile isWhiteSpace cs))" using n s w by simp
  moreover have "drop n s = dropWhile isWhiteSpace cs"
    using n s w by (simp add: dropWhile_eq_drop)
  moreover have "\<forall>c \<in> set (takeWhile isWhiteSpace cs). isWhiteSpace c"
    by (auto dest: set_takeWhileD)
  ultimately show ?thesis using that w by blast
qed

lemma m_chr_ws_SomeE:
  assumes "m_chr_ws x s = Some n"
  obtains w ws r where "s = x # w # ws @ r" "isWhiteSpace w" "\<forall>c \<in> set ws. isWhiteSpace c"
    "r = [] \<or> \<not> isWhiteSpace (hd r)" "n = Suc (Suc (length ws))" "drop n s = r"
proof -
  from assms obtain cs where s: "s = x # cs" and n: "n = Suc (length (takeWhile isWhiteSpace cs))"
    and ne: "takeWhile isWhiteSpace cs \<noteq> []"
    by (cases s) (auto simp: m_chr_ws_def Let_def split: if_splits)
  then have "m_ws cs = Some (length (takeWhile isWhiteSpace cs))" by (simp add: m_ws_Some)
  then show ?thesis
    by (rule m_ws_SomeE) (use s n in \<open>auto intro: that\<close>)
qed

lemma m_chr_ws_None:
  "m_chr_ws x s = None \<longleftrightarrow> \<not> (\<exists>w r. s = x # w # r \<and> isWhiteSpace w)"
  by (cases s; cases "tl s") (auto simp: m_chr_ws_def Let_def)

lemma m_ws_chr_SomeE:
  assumes "m_ws_chr x s = Some n"
  obtains w ws r where "s = w # ws @ x # r" "isWhiteSpace w" "\<forall>c \<in> set ws. isWhiteSpace c"
    "n = Suc (Suc (length ws))" "drop n s = r"
proof -
  from assms obtain r where d: "dropWhile isWhiteSpace s = x # r"
    and n: "n = Suc (length (takeWhile isWhiteSpace s))" and ne: "takeWhile isWhiteSpace s \<noteq> []"
    by (auto simp: m_ws_chr_def Let_def split: list.splits if_splits)
  from ne obtain w cs where s: "s = w # cs" and w: "isWhiteSpace w"
    by (cases s) (auto split: if_splits)
  from d s w have "dropWhile isWhiteSpace cs = x # r" by simp
  then have "cs = takeWhile isWhiteSpace cs @ x # r"
    by (metis takeWhile_dropWhile_id)
  then have "s = w # takeWhile isWhiteSpace cs @ x # r"
    using s by simp
  moreover have "n = Suc (Suc (length (takeWhile isWhiteSpace cs)))" using n s w by simp
  moreover have "drop n s = r"
    using d n by (metis drop_Suc dropWhile_eq_drop list.sel(3) tl_drop)
  moreover have "\<forall>c \<in> set (takeWhile isWhiteSpace cs). isWhiteSpace c"
    by (auto dest: set_takeWhileD)
  ultimately show ?thesis using that w by blast
qed

lemma m_ws_chr_None:
  assumes "m_ws_chr x (c # cs) = None" "isWhiteSpace c"
  shows "case dropWhile isWhiteSpace cs of [] \<Rightarrow> True | d # _ \<Rightarrow> d \<noteq> x"
  using assms
  by (auto simp: m_ws_chr_def Let_def split: list.splits if_splits)
     (metis dropWhile_eq_Nil_conv list.distinct(1))

lemma m_ws_chr_None_nonws: "\<not> isWhiteSpace c \<Longrightarrow> m_ws_chr x (c # cs) = None"
  by (simp add: m_ws_chr_def)

lemma proper_m_ws: "proper m_ws"
  unfolding proper_def by (auto elim!: m_ws_SomeE)

lemma proper_m_chr_ws: "proper (m_chr_ws x)"
  unfolding proper_def by (auto elim!: m_chr_ws_SomeE)

lemma proper_m_ws_chr: "proper (m_ws_chr x)"
  unfolding proper_def by (auto elim!: m_ws_chr_SomeE)

lemma set_replace_all: "proper m \<Longrightarrow> set (replace_all m rep s) \<subseteq> set s \<union> set rep"
proof (induction s rule: length_induct)
  case (1 s)
  show ?case
  proof (cases s)
    case Nil
    with 1 show ?thesis by (simp add: replace_all_Nil_proper)
  next
    case (Cons c cs)
    show ?thesis
    proof (cases "m s")
      case None
      with 1 Cons show ?thesis by (auto simp: replace_all_Cons_proper)
    next
      case (Some n)
      with 1(2) have n: "0 < n" "n \<le> length s" by (auto simp: proper_def)
      then have "set (replace_all m rep (drop n s)) \<subseteq> set (drop n s) \<union> set rep"
        using 1 Cons by (intro 1(1) [rule_format]) simp_all
      then have "set (replace_all m rep (drop n s)) \<subseteq> set s \<union> set rep"
        using set_drop_subset [of n s] by blast
      with Some Cons 1(2) show ?thesis by (auto simp: replace_all_Cons_proper)
    qed
  qed
qed

lemma chr_ws_preserves_adj:
  assumes R: "\<And>b. R x b \<Longrightarrow> isWhiteSpace b"
  shows "\<not> has_adj R s \<Longrightarrow> \<not> has_adj R (replace_all (m_chr_ws x) [x] s)"
proof -
  have "\<not> has_adj R ([] @ s) \<Longrightarrow> \<not> has_adj R ([] @ replace_all (m_chr_ws x) [x] s)"
  proof (rule replace_all_invariant [where I = "\<lambda>t. \<not> has_adj R t"])
    fix pre t n
    assume "m_chr_ws x t = Some n" and old: "\<not> has_adj R (pre @ t)"
    then obtain w ws r where t: "t = x # w # ws @ r" and r: "r = [] \<or> \<not> isWhiteSpace (hd r)"
      and d: "drop n t = r"
      by (auto elim!: m_chr_ws_SomeE)
    from old have "\<not> has_adj R (pre @ x # w # ws @ r)" by (simp add: t)
    with r show "\<not> has_adj R (pre @ [x] @ drop n t)"
      unfolding d using R by (auto simp: has_adj_append has_adj_Cons)
  qed (rule proper_m_chr_ws)
  then show "\<not> has_adj R s \<Longrightarrow> \<not> has_adj R (replace_all (m_chr_ws x) [x] s)" by simp
qed

lemma ws_chr_preserves_adj:
  assumes R: "\<And>a. \<not> R a x"
  shows "\<not> has_adj R s \<Longrightarrow> \<not> has_adj R (replace_all (m_ws_chr x) [x] s)"
proof -
  have "\<not> has_adj R ([] @ s) \<Longrightarrow> \<not> has_adj R ([] @ replace_all (m_ws_chr x) [x] s)"
  proof (rule replace_all_invariant [where I = "\<lambda>t. \<not> has_adj R t"])
    fix pre t n
    assume "m_ws_chr x t = Some n" and old: "\<not> has_adj R (pre @ t)"
    then obtain w ws r where t: "t = w # ws @ x # r" and d: "drop n t = r"
      by (auto elim!: m_ws_chr_SomeE)
    from old have "\<not> has_adj R (pre @ w # ws @ x # r)" by (simp add: t)
    then show "\<not> has_adj R (pre @ [x] @ drop n t)"
      unfolding d using R by (auto simp: has_adj_append has_adj_Cons)
  qed (rule proper_m_ws_chr)
  then show "\<not> has_adj R s \<Longrightarrow> \<not> has_adj R (replace_all (m_ws_chr x) [x] s)" by simp
qed

lemma ws_preserves_adj:
  assumes R1: "\<And>a w. isWhiteSpace w \<Longrightarrow> R a 0x20 \<Longrightarrow> R a w"
    and R2: "\<And>w b. isWhiteSpace w \<Longrightarrow> R 0x20 b \<Longrightarrow> R w b"
  shows "\<not> has_adj R s \<Longrightarrow> \<not> has_adj R (replace_all m_ws [0x20] s)"
proof -
  have "\<not> has_adj R ([] @ s) \<Longrightarrow> \<not> has_adj R ([] @ replace_all m_ws [0x20] s)"
  proof (rule replace_all_invariant [where I = "\<lambda>t. \<not> has_adj R t"])
    fix pre t n
    assume "m_ws t = Some n" and old: "\<not> has_adj R (pre @ t)"
    then obtain w ws r where t: "t = w # ws @ r" and w: "isWhiteSpace w"
      and ws: "\<forall>c \<in> set ws. isWhiteSpace c" and d: "drop n t = r"
      by (auto elim!: m_ws_SomeE)
    have l: "isWhiteSpace (last (w # ws))" using w ws by (cases ws rule: rev_cases) auto
    from old have "\<not> has_adj R (pre @ (w # ws) @ r)" unfolding t by simp
    then have a: "pre \<noteq> [] \<Longrightarrow> \<not> R (last pre) w" and b: "r \<noteq> [] \<Longrightarrow> \<not> R (last (w # ws)) (hd r)"
      and c: "\<not> has_adj R pre" "\<not> has_adj R r"
      unfolding has_adj_append [of R pre] has_adj_append [of R "w # ws"] by auto
    show "\<not> has_adj R (pre @ [0x20] @ drop n t)"
      unfolding d using a b c R1 [OF w] R2 [OF l] by (auto simp: has_adj_append has_adj_Cons)
  qed (rule proper_m_ws)
  then show "\<not> has_adj R s \<Longrightarrow> \<not> has_adj R (replace_all m_ws [0x20] s)" by simp
qed

lemma trim_decomp:
  obtains a b where "s = a @ trim s @ b" "\<forall>c \<in> set a. isWhiteSpace c" "\<forall>c \<in> set b. isWhiteSpace c"
proof -
  let ?d = "dropWhile isWhiteSpace s"
  have 1: "s = takeWhile isWhiteSpace s @ ?d" by simp
  have "rev ?d = takeWhile isWhiteSpace (rev ?d) @ dropWhile isWhiteSpace (rev ?d)" by simp
  then have "?d = rev (dropWhile isWhiteSpace (rev ?d)) @ rev (takeWhile isWhiteSpace (rev ?d))"
    by (metis rev_append rev_rev_ident)
  then have 2: "?d = trim s @ rev (takeWhile isWhiteSpace (rev ?d))" by (simp add: trim_def)
  have "s = takeWhile isWhiteSpace s @ trim s @ rev (takeWhile isWhiteSpace (rev ?d))"
    using 1 2 by metis
  moreover have "\<forall>c \<in> set (takeWhile isWhiteSpace s). isWhiteSpace c"
    by (auto dest: set_takeWhileD)
  moreover have "\<forall>c \<in> set (rev (takeWhile isWhiteSpace (rev ?d))). isWhiteSpace c"
    by (auto dest: set_takeWhileD)
  ultimately show ?thesis using that by blast
qed

lemma trim_preserves_adj: "\<not> has_adj R s \<Longrightarrow> \<not> has_adj R (trim s)"
proof -
  obtain a b where "s = a @ trim s @ b" by (rule trim_decomp)
  then show "\<not> has_adj R s \<Longrightarrow> \<not> has_adj R (trim s)"
    by (metis has_adj_append)
qed

lemma trim_ends:
  "trim s \<noteq> [] \<Longrightarrow> \<not> isWhiteSpace (hd (trim s)) \<and> \<not> isWhiteSpace (last (trim s))"
proof -
  assume ne: "trim s \<noteq> []"
  let ?d = "dropWhile isWhiteSpace s"
  let ?e = "dropWhile isWhiteSpace (rev ?d)"
  from ne have e: "?e \<noteq> []" by (simp add: trim_def)
  then have d: "?d \<noteq> []" by (metis dropWhile.simps(1) rev_is_Nil_conv)
  have "last (trim s) = hd ?e" using e by (simp add: trim_def last_rev)
  moreover have "\<not> isWhiteSpace (hd ?e)" using e hd_dropWhile by blast
  moreover have "hd (trim s) = hd ?d"
  proof -
    obtain a b where ab: "s = a @ trim s @ b" "\<forall>c \<in> set a. isWhiteSpace c" by (rule trim_decomp)
    have "\<not> isWhiteSpace (hd ?d)" using d hd_dropWhile by blast
    have "?d = rev ?e @ rev (takeWhile isWhiteSpace (rev ?d))"
      by (metis rev_append rev_rev_ident takeWhile_dropWhile_id)
    then show ?thesis using e by (metis hd_append2 rev_is_Nil_conv trim_def)
  qed
  moreover have "\<not> isWhiteSpace (hd ?d)" using d hd_dropWhile by blast
  ultimately show ?thesis by simp
qed

lemma trim_id:
  assumes "s = [] \<or> (\<not> isWhiteSpace (hd s) \<and> \<not> isWhiteSpace (last s))"
  shows "trim s = s"
proof (cases s)
  case Nil
  then show ?thesis by (simp add: trim_def)
next
  case (Cons c cs)
  with assms have 1: "dropWhile isWhiteSpace s = s" by simp
  from Cons assms have "\<not> isWhiteSpace (last s)" by blast
  then have "\<not> isWhiteSpace (hd (rev s))" using Cons by (metis hd_rev)
  moreover from Cons have "rev s \<noteq> []" by simp
  ultimately have "dropWhile isWhiteSpace (rev s) = rev s" by (cases "rev s") auto
  with 1 show ?thesis by (simp add: trim_def)
qed

lemma trim_trim: "trim (trim s) = trim s"
  using trim_ends [of s] by (intro trim_id) blast

section \<open>White space behind the passes\<close>

lemma ws_clean_Nil [simp]: "ws_clean []"
  by (simp add: ws_clean_def)

lemma ws_clean_append:
  "ws_clean (xs @ ys) \<longleftrightarrow>
     ws_clean xs \<and> ws_clean ys \<and> (xs \<noteq> [] \<and> ys \<noteq> [] \<longrightarrow> \<not> (isWhiteSpace (last xs) \<and> isWhiteSpace (hd ys)))"
  by (auto simp: ws_clean_def has_adj_append)

lemma ws_clean_single: "ws_clean [c] \<longleftrightarrow> (isWhiteSpace c \<longrightarrow> c = 0x20)"
  by (simp add: ws_clean_def)

lemma isWhiteSpace_space [simp]: "isWhiteSpace 0x20"
  by (simp add: isWhiteSpace_def)

lemma ws_clean_collapse: "ws_clean (replace_all m_ws [0x20] s)"
proof -
  let ?I = "\<lambda>pre s. ws_clean pre \<and> (pre \<noteq> [] \<and> isWhiteSpace (last pre) \<longrightarrow> s = [] \<or> \<not> isWhiteSpace (hd s))"
  have "?I ([] @ replace_all m_ws [0x20] s) []"
  proof (rule replace_all_invariant2 [where I = ?I])
    fix pre c cs
    assume "m_ws (c # cs) = None" and "?I pre (c # cs)"
    then show "?I (pre @ [c]) cs"
      by (auto simp: m_ws_None ws_clean_append ws_clean_single)
  next
    fix pre t n
    assume "m_ws t = Some n" and I: "?I pre t"
    then obtain w ws r where t: "t = w # ws @ r" and w: "isWhiteSpace w"
      and r: "r = [] \<or> \<not> isWhiteSpace (hd r)" and d: "drop n t = r"
      by (auto elim!: m_ws_SomeE)
    show "?I (pre @ [0x20]) (drop n t)"
      unfolding d using I r w by (auto simp: t ws_clean_append ws_clean_single)
  qed (simp_all add: proper_m_ws)
  then show ?thesis by simp
qed

lemma no_chr_ws_after:
  assumes x: "\<not> isWhiteSpace x"
  shows "\<not> has_adj (\<lambda>a b. a = x \<and> isWhiteSpace b) (replace_all (m_chr_ws x) [x] s)"
proof -
  let ?R = "\<lambda>a b. a = x \<and> isWhiteSpace b"
  let ?I = "\<lambda>pre s. \<not> has_adj ?R pre \<and> (pre \<noteq> [] \<and> last pre = x \<longrightarrow> s = [] \<or> \<not> isWhiteSpace (hd s))"
  have "?I ([] @ replace_all (m_chr_ws x) [x] s) []"
  proof (rule replace_all_invariant2 [where I = ?I])
    fix pre c cs
    assume "m_chr_ws x (c # cs) = None" and "?I pre (c # cs)"
    then show "?I (pre @ [c]) cs"
      by (cases cs) (auto simp: m_chr_ws_None has_adj_append)
  next
    fix pre t n
    assume "m_chr_ws x t = Some n" and I: "?I pre t"
    then obtain w ws r where t: "t = x # w # ws @ r"
      and r: "r = [] \<or> \<not> isWhiteSpace (hd r)" and d: "drop n t = r"
      by (auto elim!: m_chr_ws_SomeE)
    show "?I (pre @ [x]) (drop n t)"
      unfolding d using I r x by (auto simp: has_adj_append)
  qed (simp_all add: proper_m_chr_ws)
  then show ?thesis by simp
qed

lemma dropWhile_ws_run:
  "\<forall>c \<in> set ws. isWhiteSpace c \<Longrightarrow> \<not> isWhiteSpace x \<Longrightarrow> dropWhile isWhiteSpace (ws @ x # r) = x # r"
  by (induction ws) auto

lemma no_ws_chr_before:
  assumes x: "\<not> isWhiteSpace x"
  shows "\<not> has_adj (\<lambda>a b. isWhiteSpace a \<and> b = x) (replace_all (m_ws_chr x) [x] s)"
proof -
  let ?R = "\<lambda>a b. isWhiteSpace a \<and> b = x"
  let ?I = "\<lambda>pre s. \<not> has_adj ?R pre \<and>
     (pre \<noteq> [] \<and> isWhiteSpace (last pre) \<longrightarrow> (case dropWhile isWhiteSpace s of [] \<Rightarrow> True | d # _ \<Rightarrow> d \<noteq> x))"
  have "?I ([] @ replace_all (m_ws_chr x) [x] s) []"
  proof (rule replace_all_invariant2 [where I = ?I])
    fix pre c cs
    assume N: "m_ws_chr x (c # cs) = None" and I: "?I pre (c # cs)"
    show "?I (pre @ [c]) cs"
    proof (cases "isWhiteSpace c")
      case True
      with m_ws_chr_None [OF N] I x show ?thesis by (auto simp: has_adj_append)
    next
      case False
      with I show ?thesis by (auto simp: has_adj_append)
    qed
  next
    fix pre t n
    assume "m_ws_chr x t = Some n" and I: "?I pre t"
    then obtain w ws r where t: "t = w # ws @ x # r" and w: "isWhiteSpace w"
      and ws: "\<forall>c \<in> set ws. isWhiteSpace c" and d: "drop n t = r"
      by (auto elim!: m_ws_chr_SomeE)
    have "dropWhile isWhiteSpace t = x # r"
      unfolding t using w dropWhile_ws_run [OF ws x] by simp
    with I x show "?I (pre @ [x]) (drop n t)"
      unfolding d by (auto simp: has_adj_append)
  qed (simp_all add: proper_m_ws_chr)
  then show ?thesis by simp
qed

lemma list_all_replace_all:
  "proper m \<Longrightarrow> list_all Q s \<Longrightarrow> list_all Q rep \<Longrightarrow> list_all Q (replace_all m rep s)"
  using set_replace_all [of m rep s] by (auto simp: list_all_iff)

lemma ws_clean_chr_ws:
  "\<not> isWhiteSpace x \<Longrightarrow> ws_clean s \<Longrightarrow> ws_clean (replace_all (m_chr_ws x) [x] s)"
  unfolding ws_clean_def
  by (intro conjI list_all_replace_all chr_ws_preserves_adj) (simp_all add: proper_m_chr_ws)

lemma ws_clean_ws_chr:
  "\<not> isWhiteSpace x \<Longrightarrow> ws_clean s \<Longrightarrow> ws_clean (replace_all (m_ws_chr x) [x] s)"
  unfolding ws_clean_def
  by (intro conjI list_all_replace_all ws_chr_preserves_adj) (simp_all add: proper_m_ws_chr)

lemma set_trim: "set (trim s) \<subseteq> set s"
proof -
  obtain a b where "s = a @ trim s @ b" by (rule trim_decomp)
  then show ?thesis by (metis Un_upper1 Un_upper2 set_append subset_trans)
qed

lemma ws_clean_trim: "ws_clean s \<Longrightarrow> ws_clean (trim s)"
  unfolding ws_clean_def using set_trim [of s] trim_preserves_adj
  by (auto simp: list_all_iff)

lemma m_gt_ws_lt_SomeE:
  assumes "m_gt_ws_lt s = Some n"
  obtains w ws r where "s = 0x3E # w # ws @ 0x3C # r" "isWhiteSpace w"
    "\<forall>c \<in> set ws. isWhiteSpace c" "n = Suc (Suc (Suc (length ws)))" "drop n s = r"
proof -
  from assms obtain cs k where s: "s = 0x3E # cs" and k: "m_ws_chr 0x3C cs = Some k" and n: "n = Suc k"
    by (cases s) (auto simp: m_gt_ws_lt_def split: if_splits)
  from k show ?thesis
    by (rule m_ws_chr_SomeE) (use s n in \<open>auto intro: that\<close>)
qed

lemma proper_m_gt_ws_lt: "proper m_gt_ws_lt"
  unfolding proper_def by (auto elim!: m_gt_ws_lt_SomeE)

lemma gt_ws_lt_preserves_adj:
  assumes R: "\<not> R 0x3E 0x3C"
  shows "\<not> has_adj R s \<Longrightarrow> \<not> has_adj R (replace_all m_gt_ws_lt [0x3E, 0x3C] s)"
proof -
  have "\<not> has_adj R ([] @ s) \<Longrightarrow> \<not> has_adj R ([] @ replace_all m_gt_ws_lt [0x3E, 0x3C] s)"
  proof (rule replace_all_invariant [where I = "\<lambda>t. \<not> has_adj R t"])
    fix pre t n
    assume "m_gt_ws_lt t = Some n" and old: "\<not> has_adj R (pre @ t)"
    then obtain w ws r where t: "t = 0x3E # w # ws @ 0x3C # r" and d: "drop n t = r"
      by (auto elim!: m_gt_ws_lt_SomeE)
    from old have "\<not> has_adj R (pre @ 0x3E # w # ws @ 0x3C # r)" by (simp add: t)
    then show "\<not> has_adj R (pre @ [0x3E, 0x3C] @ drop n t)"
      unfolding d using R by (auto simp: has_adj_append has_adj_Cons)
  qed (rule proper_m_gt_ws_lt)
  then show "\<not> has_adj R s \<Longrightarrow> \<not> has_adj R (replace_all m_gt_ws_lt [0x3E, 0x3C] s)" by simp
qed

lemma not_ws_punct [simp]:
  "\<not> isWhiteSpace 0x3E" "\<not> isWhiteSpace 0x3C" "\<not> isWhiteSpace 0x3B" "\<not> isWhiteSpace 0x7B"
  "\<not> isWhiteSpace 0x7D" "\<not> isWhiteSpace 0x2F" "\<not> isWhiteSpace 0x2A"
  by (simp_all add: isWhiteSpace_def isLineTerminator_def)

lemma ws_clean_gt_ws_lt: "ws_clean s \<Longrightarrow> ws_clean (replace_all m_gt_ws_lt [0x3E, 0x3C] s)"
  unfolding ws_clean_def
  by (intro conjI list_all_replace_all gt_ws_lt_preserves_adj) (simp_all add: proper_m_gt_ws_lt)

lemma ws_clean_chars: "ws_clean s \<Longrightarrow> c \<in> set s \<Longrightarrow> isWhiteSpace c \<Longrightarrow> c = 0x20"
  by (auto simp: ws_clean_def list_all_iff split: if_splits)

lemma trimmed_trim: "trimmed (trim s)"
  using trim_ends [of s] by (auto simp: trimmed_def split: list.splits)

lemma js_literals:
  "js '' '' = [0x20]" "js ''><'' = [0x3E, 0x3C]" "js '';'' = [0x3B]" "js ''{'' = [0x7B]"
  "js ''}'' = [0x7D]" "js ''//'' = [0x2F, 0x2F]" "js ''/*'' = [0x2F, 0x2A]" "js ''*/'' = [0x2A, 0x2F]"
  "js ''<!--'' = [0x3C, 0x21, 0x2D, 0x2D]" "js ''-->'' = [0x2D, 0x2D, 0x3E]"
  by (simp_all add: js_def)

section \<open>Comments\<close>

lemma find_sub_SomeE:
  assumes "find_sub p t = Some k"
  obtains b r where "t = b @ p @ r" "length b = k"
  using assms
proof (induction t arbitrary: k thesis)
  case Nil
  then show ?case by (auto split: if_splits)
next
  case (Cons c cs)
  show ?case
  proof (cases "prefix p (c # cs)")
    case True
    with Cons.prems(2) have "k = 0" by simp
    moreover from True obtain r where "c # cs = p @ r" by (auto simp: prefix_def)
    ultimately show ?thesis using Cons.prems(1) [of "[]" r] by simp
  next
    case False
    with Cons.prems(2) obtain k' where k': "find_sub p cs = Some k'" "k = Suc k'" by auto
    from Cons.IH [OF _ k'(1)] obtain b r where "cs = b @ p @ r" "length b = k'" by blast
    then show ?thesis using Cons.prems(1) [of "c # b" r] k'(2) by simp
  qed
qed

lemma m_delimited_SomeE:
  assumes "m_delimited opn cls s = Some n"
  obtains b r where "s = opn @ b @ cls @ r" "n = length opn + length b + length cls" "drop n s = r"
proof -
  from assms have p: "prefix opn s" and "\<exists>k. find_sub cls (drop (length opn) s) = Some k \<and> n = length opn + k + length cls"
    by (auto simp: m_delimited_def split: if_splits)
  then obtain k where k: "find_sub cls (drop (length opn) s) = Some k" and n: "n = length opn + k + length cls"
    by blast
  from k obtain b r where br: "drop (length opn) s = b @ cls @ r" "length b = k"
    by (rule find_sub_SomeE)
  from p obtain t where "s = opn @ t" by (auto simp: prefix_def)
  with br have s: "s = opn @ b @ cls @ r" by simp
  have "drop n s = r" unfolding s n using br(2) by simp
  with s n br(2) show ?thesis using that by blast
qed

lemma proper_m_delimited: "opn \<noteq> [] \<Longrightarrow> proper (m_delimited opn cls)"
  unfolding proper_def by (auto elim!: m_delimited_SomeE)

lemma proper_m_block_comment: "proper m_block_comment"
  by (simp add: m_block_comment_def proper_m_delimited js_def)

lemma proper_m_html_comment: "proper m_html_comment"
  by (simp add: m_html_comment_def proper_m_delimited js_def)

lemma m_line_comment_SomeE:
  assumes "m_line_comment s = Some n"
  obtains l r where "s = 0x2F # 0x2F # l @ r" "r = [] \<or> isLineTerminator (hd r)"
    "n = Suc (Suc (length l))" "drop n s = r"
proof -
  from assms obtain t where s: "s = 0x2F # 0x2F # t"
    and n: "n = 2 + length (takeWhile (\<lambda>c. \<not> isLineTerminator c) t)"
    by (auto simp: m_line_comment_def js_literals prefix_def split: if_splits)
  let ?l = "takeWhile (\<lambda>c. \<not> isLineTerminator c) t" and ?r = "dropWhile (\<lambda>c. \<not> isLineTerminator c) t"
  have a: "s = 0x2F # 0x2F # ?l @ ?r" by (simp add: s)
  have b: "?r = [] \<or> isLineTerminator (hd ?r)"
    using hd_dropWhile [of "\<lambda>c. \<not> isLineTerminator c" t] by blast
  have c: "n = Suc (Suc (length ?l))" by (simp add: n)
  have d: "drop n s = ?r" by (simp add: s n dropWhile_eq_drop)
  from a b c d show ?thesis by (rule that)
qed

lemma m_line_comment_None: "m_line_comment s = None \<longleftrightarrow> \<not> prefix [0x2F, 0x2F] s"
  by (simp add: m_line_comment_def js_literals)

lemma proper_m_line_comment: "proper m_line_comment"
  unfolding proper_def by (auto elim!: m_line_comment_SomeE)

lemma no_slashes_line_comment: "\<not> has_adj slashes (replace_all m_line_comment [] s)"
proof -
  let ?I = "\<lambda>(pre :: jsstring) (s :: jsstring).
     \<not> has_adj slashes pre \<and> (pre \<noteq> [] \<and> last pre = 0x2F \<longrightarrow> s = [] \<or> hd s \<noteq> 0x2F)"
  have "?I ([] @ replace_all m_line_comment [] s) []"
  proof (rule replace_all_invariant2 [where I = ?I])
    fix pre c cs
    assume "m_line_comment (c # cs) = None" and "?I pre (c # cs)"
    then show "?I (pre @ [c]) cs"
      by (cases cs) (auto simp: m_line_comment_None has_adj_append)
  next
    fix pre t n
    assume "m_line_comment t = Some n" and I: "?I pre t"
    then obtain l r where t: "t = 0x2F # 0x2F # l @ r"
      and r: "r = [] \<or> isLineTerminator (hd r)" and d: "drop n t = r"
      by (auto elim!: m_line_comment_SomeE)
    have "\<not> isLineTerminator 0x2F" by (simp add: isLineTerminator_def)
    with r have "r = [] \<or> hd r \<noteq> 0x2F" by auto
    with I show "?I (pre @ []) (drop n t)"
      unfolding d by auto
  qed (simp_all add: proper_m_line_comment)
  then show ?thesis by simp
qed

lemma block_comment_preserves_slashes:
  "\<not> has_adj slashes s \<Longrightarrow> \<not> has_adj slashes (replace_all m_block_comment [] s)"
proof -
  have "\<not> has_adj slashes ([] @ s) \<Longrightarrow> \<not> has_adj slashes ([] @ replace_all m_block_comment [] s)"
  proof (rule replace_all_invariant [where I = "\<lambda>t. \<not> has_adj slashes t"])
    fix pre t n
    assume "m_block_comment t = Some n" and old: "\<not> has_adj slashes (pre @ t)"
    then obtain b r where t: "t = [0x2F, 0x2A] @ b @ [0x2A, 0x2F] @ r" and d: "drop n t = r"
      by (auto simp: m_block_comment_def js_literals elim!: m_delimited_SomeE)
    from old have "\<not> has_adj slashes (pre @ 0x2F # 0x2A # (b @ [0x2A]) @ 0x2F # r)" by (simp add: t)
    then show "\<not> has_adj slashes (pre @ [] @ drop n t)"
      unfolding d by (auto simp: has_adj_append has_adj_Cons)
  qed (rule proper_m_block_comment)
  then show "\<not> has_adj slashes s \<Longrightarrow> \<not> has_adj slashes (replace_all m_block_comment [] s)" by simp
qed

lemma sublist_pair: "sublist [a, b] s \<longleftrightarrow> has_adj (\<lambda>x y. x = a \<and> y = b) s"
proof (induction s)
  case Nil
  then show ?case by simp
next
  case (Cons c cs)
  then show ?case by (cases cs) (auto simp: sublist_Cons_right)
qed

lemma js_minify_no_slashes:
  "\<not> has_adj slashes
     (trim
       (replace_all (m_ws_chr 0x7D) [0x7D]
         (replace_all (m_chr_ws 0x7B) [0x7B]
           (replace_all (m_chr_ws 0x3B) [0x3B]
             (replace_all m_ws [0x20]
               (replace_all m_block_comment []
                 (replace_all m_line_comment [] content)))))))"
  by (intro trim_preserves_adj ws_chr_preserves_adj chr_ws_preserves_adj ws_preserves_adj
        block_comment_preserves_slashes no_slashes_line_comment) simp_all

lemma find_sub_None: "find_sub p t = None \<longleftrightarrow> \<not> sublist p t"
  by (induction t) (auto simp: sublist_Cons_right)

lemma m_block_comment_None:
  "m_block_comment s = None \<longleftrightarrow> \<not> (\<exists>r. s = 0x2F # 0x2A # r \<and> has_adj star_slash r)"
proof -
  have "find_sub [0x2A, 0x2F] t = None \<longleftrightarrow> \<not> has_adj star_slash t" for t :: jsstring
    by (simp add: find_sub_None sublist_pair)
  then show ?thesis
    by (auto simp: m_block_comment_def m_delimited_def js_literals prefix_def)
qed

lemma has_adj_suffix: "suffix t s \<Longrightarrow> has_adj R t \<Longrightarrow> has_adj R s"
  by (auto simp: suffix_def has_adj_append)

lemma regex_test_block_star_slash: "regex_test m_block_comment s \<Longrightarrow> has_adj star_slash s"
proof -
  assume "regex_test m_block_comment s"
  then obtain t where t: "suffix t s" "m_block_comment t \<noteq> None" by (auto simp: regex_test_iff)
  then obtain r where "t = 0x2F # 0x2A # r" "has_adj star_slash r" by (auto simp: m_block_comment_None)
  then have "has_adj star_slash t" by (simp add: has_adj_Cons)
  with t(1) show ?thesis by (rule has_adj_suffix)
qed

lemma run_Closed [simp]: "foldl comment_step Closed t = Closed"
  by (induction t) auto

lemma run_Inside_Star:
  "(foldl comment_step Inside t = Closed \<longleftrightarrow> has_adj star_slash t) \<and>
   (foldl comment_step Star t = Closed \<longleftrightarrow> (t \<noteq> [] \<and> hd t = 0x2F) \<or> has_adj star_slash t)"
  by (induction t) (auto simp: has_adj_Cons)

lemma run_Outside_Slash:
  "(foldl comment_step Outside s = Closed \<longleftrightarrow> regex_test m_block_comment s) \<and>
   (foldl comment_step Slash s = Closed \<longleftrightarrow>
      (\<exists>r. s = 0x2A # r \<and> has_adj star_slash r) \<or> regex_test m_block_comment s)"
proof (induction s)
  case Nil
  then show ?case by (simp add: m_block_comment_None)
next
  case (Cons c cs)
  have m: "m_block_comment (c # cs) = None \<longleftrightarrow> \<not> (c = 0x2F \<and> (\<exists>r. cs = 0x2A # r \<and> has_adj star_slash r))"
    by (auto simp: m_block_comment_None)
  have r: "regex_test m_block_comment cs \<Longrightarrow> has_adj star_slash cs"
    by (rule regex_test_block_star_slash)
  show ?case
    using Cons m r run_Inside_Star [of cs] by auto
qed

lemma no_comment_iff: "\<not> regex_test m_block_comment s \<longleftrightarrow> foldl comment_step Outside s \<noteq> Closed"
  by (simp add: run_Outside_Slash)

lemma run_neutral:
  "xs \<noteq> [] \<Longrightarrow> \<forall>c \<in> set xs. c \<noteq> 0x2F \<and> c \<noteq> 0x2A \<Longrightarrow> foldl comment_step q xs = neutral q"
proof (induction xs arbitrary: q)
  case Nil
  then show ?case by simp
next
  case (Cons c cs)
  then have c: "comment_step q c = neutral q" by (cases q) auto
  show ?case
  proof (cases cs)
    case Nil
    with c show ?thesis by simp
  next
    case (Cons d ds)
    with Cons.IH [of "neutral q"] Cons.prems c show ?thesis by (cases q) auto
  qed
qed

lemma run_replace_all:
  assumes m: "proper m"
    and seg: "\<And>s n q. m s = Some n \<Longrightarrow> foldl comment_step q (take n s) = foldl comment_step q rep"
  shows "foldl comment_step q (replace_all m rep s) = foldl comment_step q s"
proof -
  let ?I = "\<lambda>t. foldl comment_step q t = foldl comment_step q s"
  have "?I ([] @ s) \<Longrightarrow> ?I ([] @ replace_all m rep s)"
  proof (rule replace_all_invariant [where I = ?I])
    fix pre t n
    assume t: "m t = Some n" and old: "?I (pre @ t)"
    have "foldl comment_step q' t = foldl comment_step (foldl comment_step q' (take n t)) (drop n t)" for q'
      by (metis append_take_drop_id foldl_append)
    then have "foldl comment_step q (pre @ rep @ drop n t) = foldl comment_step q (pre @ t)"
      by (simp add: seg [OF t])
    with old show "?I (pre @ rep @ drop n t)" by simp
  qed (rule m)
  then show ?thesis by simp
qed

lemma ws_not_comment_char: "isWhiteSpace c \<Longrightarrow> c \<noteq> 0x2F \<and> c \<noteq> 0x2A"
  by auto

lemma run_collapse: "foldl comment_step q (replace_all m_ws [0x20] s) = foldl comment_step q s"
proof (rule run_replace_all [OF proper_m_ws])
  fix t n q
  assume "m_ws t = Some n"
  then obtain w ws r where t: "t = w # ws @ r" "isWhiteSpace w" "\<forall>c \<in> set ws. isWhiteSpace c"
    "n = Suc (length ws)"
    by (auto elim!: m_ws_SomeE)
  then have "take n t = w # ws" by simp
  moreover have "foldl comment_step q (w # ws) = neutral q"
    using t by (intro run_neutral) (auto dest: ws_not_comment_char)
  moreover have "foldl comment_step q [0x20] = neutral q"
    by (intro run_neutral) auto
  ultimately show "foldl comment_step q (take n t) = foldl comment_step q [0x20]" by simp
qed

lemma run_chr_ws:
  assumes x: "x \<noteq> 0x2F" "x \<noteq> 0x2A"
  shows "foldl comment_step q (replace_all (m_chr_ws x) [x] s) = foldl comment_step q s"
proof (rule run_replace_all [OF proper_m_chr_ws])
  fix t n q
  assume "m_chr_ws x t = Some n"
  then obtain w ws r where t: "t = x # w # ws @ r" "isWhiteSpace w" "\<forall>c \<in> set ws. isWhiteSpace c"
    "n = Suc (Suc (length ws))"
    by (auto elim!: m_chr_ws_SomeE)
  then have "take n t = x # w # ws" by simp
  moreover have "foldl comment_step q (x # w # ws) = neutral q"
    using t x by (intro run_neutral) (auto dest: ws_not_comment_char)
  moreover have "foldl comment_step q [x] = neutral q"
    using x by (intro run_neutral) auto
  ultimately show "foldl comment_step q (take n t) = foldl comment_step q [x]" by simp
qed

lemma run_ws_chr:
  assumes x: "x \<noteq> 0x2F" "x \<noteq> 0x2A"
  shows "foldl comment_step q (replace_all (m_ws_chr x) [x] s) = foldl comment_step q s"
proof (rule run_replace_all [OF proper_m_ws_chr])
  fix t n q
  assume "m_ws_chr x t = Some n"
  then obtain w ws r where t: "t = w # ws @ x # r" "isWhiteSpace w" "\<forall>c \<in> set ws. isWhiteSpace c"
    "n = Suc (Suc (length ws))"
    by (auto elim!: m_ws_chr_SomeE)
  then have "take n t = w # ws @ [x]" by simp
  moreover have "foldl comment_step q (w # ws @ [x]) = neutral q"
    using t x by (intro run_neutral) (auto dest: ws_not_comment_char)
  moreover have "foldl comment_step q [x] = neutral q"
    using x by (intro run_neutral) auto
  ultimately show "foldl comment_step q (take n t) = foldl comment_step q [x]" by simp
qed

lemma run_ws_Outside: "\<forall>c \<in> set a. isWhiteSpace c \<Longrightarrow> foldl comment_step Outside a = Outside"
  using run_neutral [of a Outside] by (cases a) (auto dest: ws_not_comment_char)

lemma no_comment_trim:
  assumes "\<not> regex_test m_block_comment s"
  shows "\<not> regex_test m_block_comment (trim s)"
proof -
  obtain a b where s: "s = a @ trim s @ b" and a: "\<forall>c \<in> set a. isWhiteSpace c"
    by (rule trim_decomp)
  have "foldl comment_step Outside s = foldl comment_step (foldl comment_step Outside (trim s)) b"
    by (subst s) (simp add: run_ws_Outside [OF a])
  with assms show ?thesis
    by (auto simp: no_comment_iff)
qed

lemma no_comment_block_comment:
  "\<not> has_adj slashes s \<Longrightarrow> \<not> regex_test m_block_comment (replace_all m_block_comment [] s)"
proof (induction s rule: length_induct)
  case (1 s)
  note m = proper_m_block_comment
  show ?case
  proof (cases s)
    case Nil
    then show ?thesis by (simp add: replace_all_Nil_proper m proper_Nil)
  next
    case (Cons c cs)
    show ?thesis
    proof (cases "m_block_comment s")
      case (Some n)
      with m have n: "0 < n" "n \<le> length s" by (auto simp: proper_def)
      have "suffix (drop n s) s" by (rule suffix_drop)
      with 1(2) have "\<not> has_adj slashes (drop n s)" using has_adj_suffix by blast
      with 1(1) n Cons have "\<not> regex_test m_block_comment (replace_all m_block_comment [] (drop n s))"
        by simp
      with Some Cons m show ?thesis by (simp add: replace_all_Cons_proper)
    next
      case None
      from 1(2) Cons have cs: "\<not> has_adj slashes cs" by (simp add: has_adj_Cons)
      with 1(1) Cons have IH: "\<not> regex_test m_block_comment (replace_all m_block_comment [] cs)"
        by simp
      have "m_block_comment (c # replace_all m_block_comment [] cs) = None"
      proof (rule ccontr)
        assume "m_block_comment (c # replace_all m_block_comment [] cs) \<noteq> None"
        then obtain r' where c: "c = 0x2F" and r': "replace_all m_block_comment [] cs = 0x2A # r'"
          "has_adj star_slash r'"
          by (auto simp: m_block_comment_None)
        from 1(2) Cons c have hd: "cs = [] \<or> hd cs \<noteq> 0x2F" by (auto simp: has_adj_Cons)
        with r' obtain d ds where ds: "cs = d # ds"
          by (cases cs) (auto simp: replace_all_Nil_proper m)
        with hd have "m_block_comment cs = None" by (auto simp: m_block_comment_None)
        with ds r' m have d: "d = 0x2A" "r' = replace_all m_block_comment [] ds"
          by (auto simp: replace_all_Cons_proper)
        from None Cons c ds d have "\<not> has_adj star_slash ds" by (auto simp: m_block_comment_None)
        then have "\<not> regex_test m_block_comment ds" using regex_test_block_star_slash by blast
        then have "replace_all m_block_comment [] ds = ds" by (rule replace_all_id [OF m])
        with r' d \<open>\<not> has_adj star_slash ds\<close> show False by simp
      qed
      with IH None Cons m show ?thesis by (simp add: replace_all_Cons_proper)
    qed
  qed
qed

section \<open>Running the passes again\<close>

lemma mockMinify_css: "mockMinify content T_css = Inr (ws_passes (replace_all m_block_comment [] content))"
  by (simp add: ws_passes_def js_literals)

lemma mockMinify_js:
  "type = T_js \<or> type = T_jsx \<Longrightarrow>
   mockMinify content type = Inr (ws_passes (replace_all m_block_comment [] (replace_all m_line_comment [] content)))"
  by (auto simp: ws_passes_def js_literals)

lemma regex_test_chr_ws: "regex_test (m_chr_ws x) s \<Longrightarrow> has_adj (\<lambda>a b. a = x \<and> isWhiteSpace b) s"
proof -
  assume "regex_test (m_chr_ws x) s"
  then obtain t n where t: "suffix t s" "m_chr_ws x t = Some n" by (auto simp: regex_test_iff)
  then obtain w r where "t = x # w # r" "isWhiteSpace w" by (auto elim!: m_chr_ws_SomeE)
  then have "has_adj (\<lambda>a b. a = x \<and> isWhiteSpace b) t" by simp
  with t(1) show ?thesis by (rule has_adj_suffix)
qed

lemma regex_test_ws_chr: "regex_test (m_ws_chr x) s \<Longrightarrow> has_adj (\<lambda>a b. isWhiteSpace a \<and> b = x) s"
proof -
  assume "regex_test (m_ws_chr x) s"
  then obtain t n where t: "suffix t s" "m_ws_chr x t = Some n" by (auto simp: regex_test_iff)
  then obtain w ws r where w: "t = (w # ws) @ x # r" "isWhiteSpace w" "\<forall>c \<in> set ws. isWhiteSpace c"
    by (auto elim!: m_ws_chr_SomeE)
  then have "isWhiteSpace (last (w # ws))" by (cases ws rule: rev_cases) auto
  then have "has_adj (\<lambda>a b. isWhiteSpace a \<and> b = x) t"
    unfolding w(1) has_adj_append by simp
  with t(1) show ?thesis by (rule has_adj_suffix)
qed

lemma regex_test_line_comment: "regex_test m_line_comment s \<Longrightarrow> has_adj slashes s"
proof -
  assume "regex_test m_line_comment s"
  then obtain t n where t: "suffix t s" "m_line_comment t = Some n" by (auto simp: regex_test_iff)
  then obtain r where "t = 0x2F # 0x2F # r" by (auto elim!: m_line_comment_SomeE)
  then have "has_adj slashes t" by simp
  with t(1) show ?thesis by (rule has_adj_suffix)
qed

lemma collapse_id: "ws_clean s \<Longrightarrow> replace_all m_ws [0x20] s = s"
proof (induction s)
  case Nil
  then show ?case by (simp add: replace_all_Nil_proper proper_m_ws)
next
  case (Cons c cs)
  from Cons.prems have cs: "ws_clean cs" using ws_clean_append [of "[c]" cs] by simp
  show ?case
  proof (cases "isWhiteSpace c")
    case False
    then have "m_ws (c # cs) = None" by (simp add: m_ws_None)
    with Cons.IH [OF cs] show ?thesis by (simp add: replace_all_Cons_proper proper_m_ws)
  next
    case True
    with Cons.prems have c: "c = 0x20" and n: "cs = [] \<or> \<not> isWhiteSpace (hd cs)"
      using ws_clean_append [of "[c]" cs] by (auto simp: ws_clean_single)
    then have "takeWhile isWhiteSpace cs = []" by (cases cs) auto
    with True have "m_ws (c # cs) = Some 1" by (simp add: m_ws_Some)
    with Cons.IH [OF cs] c show ?thesis by (simp add: replace_all_Cons_proper proper_m_ws)
  qed
qed

lemma trimmed_id: "trimmed s \<Longrightarrow> trim s = s"
  by (rule trim_id) (auto simp: trimmed_def split: list.splits)

lemma settled_ws_passes: "settled (ws_passes s)"
  unfolding settled_def ws_passes_def
  by (intro conjI trimmed_trim ws_clean_trim ws_clean_ws_chr ws_clean_chr_ws ws_clean_collapse
        trim_preserves_adj no_ws_chr_before ws_chr_preserves_adj no_chr_ws_after
        chr_ws_preserves_adj)
     simp_all

lemma ws_passes_id:
  assumes "settled s"
  shows "ws_passes s = s"
proof -
  from assms have 1: "replace_all m_ws [0x20] s = s"
    by (simp add: settled_def collapse_id)
  from assms have "\<not> regex_test (m_chr_ws 0x3B) s"
    using regex_test_chr_ws [where x = "0x3B" and s = s] by (auto simp: settled_def)
  then have 2: "replace_all (m_chr_ws 0x3B) [0x3B] s = s"
    by (intro replace_all_id proper_m_chr_ws)
  from assms have "\<not> regex_test (m_chr_ws 0x7B) s"
    using regex_test_chr_ws [where x = "0x7B" and s = s] by (auto simp: settled_def)
  then have 3: "replace_all (m_chr_ws 0x7B) [0x7B] s = s"
    by (intro replace_all_id proper_m_chr_ws)
  from assms have "\<not> regex_test (m_ws_chr 0x7D) s"
    using regex_test_ws_chr [where x = "0x7D" and s = s] by (auto simp: settled_def)
  then have 4: "replace_all (m_ws_chr 0x7D) [0x7D] s = s"
    by (intro replace_all_id proper_m_ws_chr)
  from assms have 5: "trim s = s"
    by (simp add: settled_def trimmed_id)
  show ?thesis
    by (simp add: ws_passes_def 1 2 3 4 5)
qed

lemma ws_passes_slashes: "\<not> has_adj slashes s \<Longrightarrow> \<not> has_adj slashes (ws_passes s)"
  unfolding ws_passes_def
  by (intro trim_preserves_adj ws_chr_preserves_adj chr_ws_preserves_adj ws_preserves_adj) simp_all

lemma ws_passes_no_comment:
  "\<not> regex_test m_block_comment s \<Longrightarrow> \<not> regex_test m_block_comment (ws_passes s)"
  unfolding ws_passes_def
  by (intro no_comment_trim) (simp add: no_comment_iff run_ws_chr run_chr_ws run_collapse)

lemma js_idempotent:
  assumes "type = T_js \<or> type = T_jsx"
  shows "\<exists>y. mockMinify content type = Inr y \<and> mockMinify y type = Inr y"
proof -
  let ?l = "replace_all m_line_comment [] content"
  let ?k = "replace_all m_block_comment [] ?l"
  let ?y = "ws_passes ?k"
  have l: "\<not> has_adj slashes ?l" by (rule no_slashes_line_comment)
  then have k: "\<not> has_adj slashes ?k" by (rule block_comment_preserves_slashes)
  then have 1: "\<not> has_adj slashes ?y" by (rule ws_passes_slashes)
  have "\<not> regex_test m_block_comment ?k" using l by (rule no_comment_block_comment)
  then have 2: "\<not> regex_test m_block_comment ?y" by (rule ws_passes_no_comment)
  from 1 have "replace_all m_line_comment [] ?y = ?y"
    using regex_test_line_comment by (intro replace_all_id proper_m_line_comment) blast
  moreover from 2 have "replace_all m_block_comment [] ?y = ?y"
    by (intro replace_all_id proper_m_block_comment)
  moreover have "ws_passes ?y = ?y"
    by (intro ws_passes_id settled_ws_passes)
  ultimately show ?thesis
    unfolding mockMinify_js [OF assms] by simp
qed

lemma css_idempotent:
  assumes "mockMinify content T_css = Inr y" "\<not> regex_test m_block_comment y"
  shows "mockMinify y T_css = Inr y"
proof -
  from assms(1) have y: "y = ws_passes (replace_all m_block_comment [] content)"
    unfolding mockMinify_css by simp
  from assms(2) have "replace_all m_block_comment [] y = y"
    by (intro replace_all_id proper_m_block_comment)
  moreover have "ws_passes y = y"
    unfolding y by (intro ws_passes_id settled_ws_passes)
  ultimately show ?thesis unfolding mockMinify_css by simp
qed

lemma lt_ahead_Cons:
  "lt_ahead (c # cs) = (if isWhiteSpace c then lt_ahead cs else c = 0x3C)"
  by (simp add: lt_ahead_def)

lemma lt_ahead_Nil [simp]: "\<not> lt_ahead []"
  by (simp add: lt_ahead_def)

lemma m_gt_ws_lt_None:
  "m_gt_ws_lt s = None \<longleftrightarrow> \<not> (\<exists>w r. s = 0x3E # w # r \<and> isWhiteSpace w \<and> lt_ahead r)"
proof (cases s)
  case Nil
  then show ?thesis by (simp add: m_gt_ws_lt_def)
next
  case (Cons c cs)
  show ?thesis
  proof (cases cs)
    case Nil
    with Cons show ?thesis by (simp add: m_gt_ws_lt_def m_ws_chr_def)
  next
    case (Cons w r)
    with \<open>s = c # cs\<close> show ?thesis
      by (auto simp: m_gt_ws_lt_def m_ws_chr_def lt_ahead_def Let_def split: list.splits)
         (metis dropWhile_eq_Nil_conv list.distinct(1))
  qed
qed

lemma gap_found [simp]: "foldl gap_step G_found s = G_found"
  by (induction s) auto

lemma gap_run:
  "(foldl gap_step G_start s = G_found \<longleftrightarrow> regex_test m_gt_ws_lt s) \<and>
   (foldl gap_step G_gt s = G_found \<longleftrightarrow>
      (s \<noteq> [] \<and> isWhiteSpace (hd s) \<and> lt_ahead s) \<or> regex_test m_gt_ws_lt s) \<and>
   (foldl gap_step G_ws s = G_found \<longleftrightarrow> lt_ahead s \<or> regex_test m_gt_ws_lt s)"
proof (induction s)
  case Nil
  then show ?case by (simp add: m_gt_ws_lt_None)
next
  case (Cons c cs)
  have m: "m_gt_ws_lt (c # cs) = None \<longleftrightarrow>
      \<not> (c = 0x3E \<and> cs \<noteq> [] \<and> isWhiteSpace (hd cs) \<and> lt_ahead cs)"
    by (cases cs) (auto simp: m_gt_ws_lt_None lt_ahead_Cons)
  show ?case
    using Cons m by (auto simp: lt_ahead_Cons)
qed

lemma no_gap_iff: "\<not> regex_test m_gt_ws_lt s \<longleftrightarrow> foldl gap_step G_start s \<noteq> G_found"
  by (simp add: gap_run)

lemma no_gap_gt_ws_lt: "\<not> regex_test m_gt_ws_lt (replace_all m_gt_ws_lt [0x3E, 0x3C] s)"
proof -
  let ?I = "\<lambda>pre s. foldl gap_step G_start pre \<noteq> G_found \<and>
     (foldl gap_step G_start pre = G_ws \<longrightarrow> \<not> lt_ahead s) \<and>
     (foldl gap_step G_start pre = G_gt \<longrightarrow> \<not> (s \<noteq> [] \<and> isWhiteSpace (hd s) \<and> lt_ahead s))"
  have "?I ([] @ replace_all m_gt_ws_lt [0x3E, 0x3C] s) []"
  proof (rule replace_all_invariant2 [where I = ?I])
    fix pre c cs
    assume N: "m_gt_ws_lt (c # cs) = None" and I: "?I pre (c # cs)"
    have m: "\<not> (c = 0x3E \<and> cs \<noteq> [] \<and> isWhiteSpace (hd cs) \<and> lt_ahead cs)"
      using N by (cases cs) (auto simp: m_gt_ws_lt_None lt_ahead_Cons)
    show "?I (pre @ [c]) cs"
      using I m by (cases "foldl gap_step G_start pre") (auto simp: lt_ahead_Cons split: if_splits)
  next
    fix pre t n
    assume "m_gt_ws_lt t = Some n" and I: "?I pre t"
    show "?I (pre @ [0x3E, 0x3C]) (drop n t)"
      using I by (cases "foldl gap_step G_start pre") auto
  qed (simp_all add: proper_m_gt_ws_lt)
  then show ?thesis by (simp add: no_gap_iff)
qed

lemma gap_ws_start: "\<forall>c \<in> set a. isWhiteSpace c \<Longrightarrow> foldl gap_step G_start a = G_start"
  by (induction a) auto

lemma no_gap_trim:
  assumes "\<not> regex_test m_gt_ws_lt s"
  shows "\<not> regex_test m_gt_ws_lt (trim s)"
proof -
  obtain a b where s: "s = a @ trim s @ b" and a: "\<forall>c \<in> set a. isWhiteSpace c"
    by (rule trim_decomp)
  have "foldl gap_step G_start s = foldl gap_step (foldl gap_step G_start (trim s)) b"
    by (subst s) (simp add: gap_ws_start [OF a])
  with assms show ?thesis
    by (auto simp: no_gap_iff)
qed

lemma html_idempotent:
  assumes "mockMinify content T_html = Inr y" "\<not> regex_test m_html_comment y"
  shows "mockMinify y T_html = Inr y"
proof -
  let ?c = "replace_all m_ws [0x20] (replace_all m_html_comment [] content)"
  let ?g = "replace_all m_gt_ws_lt [0x3E, 0x3C] ?c"
  from assms(1) have y: "y = trim ?g" by (simp add: js_literals)
  have "ws_clean ?g" by (intro ws_clean_gt_ws_lt ws_clean_collapse)
  then have "ws_clean y" unfolding y by (rule ws_clean_trim)
  then have 1: "replace_all m_ws [0x20] y = y" by (rule collapse_id)
  have "\<not> regex_test m_gt_ws_lt y" unfolding y by (intro no_gap_trim no_gap_gt_ws_lt)
  then have 2: "replace_all m_gt_ws_lt [0x3E, 0x3C] y = y"
    by (intro replace_all_id proper_m_gt_ws_lt)
  from assms(2) have 3: "replace_all m_html_comment [] y = y"
    by (intro replace_all_id proper_m_html_comment)
  have 4: "trim y = y" unfolding y by (rule trim_trim)
  show ?thesis by (simp add: js_literals 1 2 3 4)
qed

section \<open>Sizes\<close>

lemma blob_size_Nil [simp]: "blob_size [] = 0"
  by (simp add: blob_size_def)

lemma high_not_low: "isHighSurrogate c \<Longrightarrow> \<not> isLowSurrogate c"
  by (auto simp: isHighSurrogate_def isLowSurrogate_def word_le_nat_alt)

lemma blob_size_Cons:
  "blob_size (c # cs) =
     (if isHighSurrogate c \<and> cs \<noteq> [] \<and> isLowSurrogate (hd cs) then 4 + blob_size (tl cs)
      else unit_size c + blob_size cs)"
  by (cases cs) (auto simp: blob_size_def unit_size_def Let_def high_not_low)

lemma unit_size_bounds: "1 \<le> unit_size c" "unit_size c \<le> 3"
  by (auto simp: unit_size_def)

lemma blob_size_append_le: "blob_size (xs @ ys) \<le> blob_size xs + blob_size ys"
proof (induction xs rule: length_induct)
  case (1 xs)
  show ?case
  proof (cases xs)
    case Nil
    then show ?thesis by simp
  next
    case (Cons c cs)
    show ?thesis
    proof (cases "isHighSurrogate c \<and> cs \<noteq> [] \<and> isLowSurrogate (hd cs)")
      case True
      then obtain d ds where cs: "cs = d # ds" by (cases cs) auto
      have "blob_size (ds @ ys) \<le> blob_size ds + blob_size ys"
        using 1 Cons cs by simp
      with True Cons cs show ?thesis by (simp add: blob_size_Cons)
    next
      case False
      have IH: "blob_size (cs @ ys) \<le> blob_size cs + blob_size ys"
        using 1 Cons by simp
      show ?thesis
      proof (cases "isHighSurrogate c \<and> cs = [] \<and> ys \<noteq> [] \<and> isLowSurrogate (hd ys)")
        case True
        then obtain d ds where ys: "ys = d # ds" by (cases ys) auto
        from True ys have d: "\<not> isHighSurrogate d" using high_not_low by auto
        from True ys have "blob_size (c # d # ds) = 4 + blob_size ds"
          by (simp add: blob_size_Cons)
        moreover from d have "blob_size (d # ds) = unit_size d + blob_size ds"
          by (simp add: blob_size_Cons)
        moreover from True have "blob_size [c] = 3"
          by (simp add: blob_size_Cons unit_size_def)
        ultimately show ?thesis
          using unit_size_bounds(1) [of d] True Cons ys by simp
      next
        case F2: False
        with False have "blob_size (c # cs @ ys) = unit_size c + blob_size (cs @ ys)"
          by (cases cs) (auto simp: blob_size_Cons)
        moreover from False have "blob_size (c # cs) = unit_size c + blob_size cs"
          by (auto simp: blob_size_Cons)
        ultimately show ?thesis using IH Cons by simp
      qed
    qed
  qed
qed

lemma blob_size_append_clean:
  "xs = [] \<or> ys = [] \<or> \<not> isHighSurrogate (last xs) \<or> \<not> isLowSurrogate (hd ys) \<Longrightarrow>
   blob_size (xs @ ys) = blob_size xs + blob_size ys"
proof (induction xs rule: length_induct)
  case (1 xs)
  show ?case
  proof (cases xs)
    case Nil
    then show ?thesis by simp
  next
    case (Cons c cs)
    show ?thesis
    proof (cases "isHighSurrogate c \<and> cs \<noteq> [] \<and> isLowSurrogate (hd cs)")
      case True
      then obtain d ds where cs: "cs = d # ds" by (cases cs) auto
      have "ds = [] \<or> ys = [] \<or> \<not> isHighSurrogate (last ds) \<or> \<not> isLowSurrogate (hd ys)"
        using 1(2) Cons cs True by (auto simp: high_not_low split: if_splits)
      then have "blob_size (ds @ ys) = blob_size ds + blob_size ys"
        using 1(1) Cons cs by simp
      with True Cons cs show ?thesis by (simp add: blob_size_Cons)
    next
      case False
      have "cs = [] \<or> ys = [] \<or> \<not> isHighSurrogate (last cs) \<or> \<not> isLowSurrogate (hd ys)"
        using 1(2) Cons by (auto split: if_splits)
      then have IH: "blob_size (cs @ ys) = blob_size cs + blob_size ys"
        using 1(1) Cons by simp
      have "\<not> (isHighSurrogate c \<and> cs @ ys \<noteq> [] \<and> isLowSurrogate (hd (cs @ ys)))"
        using False 1(2) Cons by (cases cs) auto
      then have "blob_size (c # cs @ ys) = unit_size c + blob_size (cs @ ys)"
        by (simp only: blob_size_Cons if_False)
      moreover from False have "blob_size (c # cs) = unit_size c + blob_size cs"
        by (auto simp: blob_size_Cons)
      ultimately show ?thesis using IH Cons by simp
    qed
  qed
qed

lemma blob_size_pos: "s \<noteq> [] \<Longrightarrow> 0 < blob_size s"
proof (cases s)
  case (Cons c cs)
  then show ?thesis
    using unit_size_bounds(1) [of c] by (simp add: blob_size_Cons)
qed simp

lemma ws_not_surrogate: "isWhiteSpace c \<Longrightarrow> \<not> isLowSurrogate c \<and> \<not> isHighSurrogate c"
  by (auto simp: isWhiteSpace_def isLineTerminator_def isLowSurrogate_def isHighSurrogate_def word_le_nat_alt)

lemma blob_segment_eq:
  assumes "S \<noteq> []" "\<not> isLowSurrogate (hd S)"
    "r = [] \<or> \<not> isHighSurrogate (last S) \<or> \<not> isLowSurrogate (hd r)"
  shows "blob_size (pre @ S @ r) = blob_size pre + blob_size S + blob_size r"
proof -
  have "blob_size (pre @ S @ r) = blob_size pre + blob_size (S @ r)"
    using assms(1,2) by (intro blob_size_append_clean) simp
  also have "blob_size (S @ r) = blob_size S + blob_size r"
    using assms(3) by (intro blob_size_append_clean) auto
  finally show ?thesis by simp
qed

lemma blob_segment_le: "blob_size (pre @ rep @ r) \<le> blob_size pre + blob_size rep + blob_size r"
  using blob_size_append_le [of pre "rep @ r"] blob_size_append_le [of rep r] by simp

lemma shrinks_step:
  assumes "proper m" "shrinks m rep" "m s = Some n"
  shows "blob_size (pre @ rep @ drop n s) \<le> blob_size (pre @ s)"
    and "blob_size (pre @ s) = blob_size pre + blob_size (take n s) + blob_size (drop n s)"
proof -
  from assms(1,3) have n: "0 < n" "n \<le> length s" by (auto simp: proper_def)
  then have ne: "take n s \<noteq> []" and hd: "hd (take n s) = hd s" by auto
  from assms(2,3) have c: "\<not> isLowSurrogate (hd s)"
    "drop n s = [] \<or> \<not> isHighSurrogate (last (take n s)) \<or> \<not> isLowSurrogate (hd (drop n s))"
    "blob_size rep \<le> blob_size (take n s)"
    by (auto simp: shrinks_def)
  have "blob_size (pre @ take n s @ drop n s) = blob_size pre + blob_size (take n s) + blob_size (drop n s)"
    using ne c(1,2) hd by (intro blob_segment_eq) auto
  then show eq: "blob_size (pre @ s) = blob_size pre + blob_size (take n s) + blob_size (drop n s)"
    by simp
  show "blob_size (pre @ rep @ drop n s) \<le> blob_size (pre @ s)"
    using eq c(3) blob_segment_le [of pre rep "drop n s"] by simp
qed

lemma blob_replace_all_le:
  assumes m: "proper m" and sh: "shrinks m rep"
  shows "blob_size (pre @ replace_all m rep s) \<le> blob_size (pre @ s)"
proof -
  let ?I = "\<lambda>t. blob_size t \<le> blob_size (pre @ s)"
  have "?I (pre @ s) \<Longrightarrow> ?I (pre @ replace_all m rep s)"
  proof (rule replace_all_invariant [where I = ?I])
    fix p t n
    assume "m t = Some n" and "?I (p @ t)"
    then show "?I (p @ rep @ drop n t)"
      using shrinks_step(1) [OF m sh, of t n p] by simp
  qed (rule m)
  then show ?thesis by simp
qed

lemma blob_replace_all_less:
  assumes m: "proper m" and sh: "shrinks_strictly m rep"
  shows "regex_test m s \<Longrightarrow> blob_size (pre @ replace_all m rep s) < blob_size (pre @ s)"
proof (induction s arbitrary: pre)
  case Nil
  with m show ?case by (simp add: proper_Nil)
next
  case (Cons c cs)
  from sh have sh': "shrinks m rep" by (simp add: shrinks_strictly_def)
  show ?case
  proof (cases "m (c # cs)")
    case None
    with Cons.prems have "regex_test m cs" by simp
    from Cons.IH [OF this, of "pre @ [c]"] None m show ?thesis
      by (simp add: replace_all_Cons_proper)
  next
    case (Some n)
    have "blob_size (pre @ rep @ replace_all m rep (drop n (c # cs)))
        \<le> blob_size (pre @ rep @ drop n (c # cs))"
      using blob_replace_all_le [OF m sh', of "pre @ rep"] by simp
    also have "\<dots> \<le> blob_size pre + blob_size rep + blob_size (drop n (c # cs))"
      by (rule blob_segment_le)
    also have "\<dots> < blob_size pre + blob_size (take n (c # cs)) + blob_size (drop n (c # cs))"
      using sh Some by (auto simp: shrinks_strictly_def)
    also have "\<dots> = blob_size (pre @ c # cs)"
      using shrinks_step(2) [OF m sh' Some] by simp
    finally show ?thesis using Some m by (simp add: replace_all_Cons_proper)
  qed
qed

lemma shrinksI:
  assumes "\<And>s n. m s = Some n \<Longrightarrow>
     \<exists>S r. s = S @ r \<and> n = length S \<and> S \<noteq> [] \<and> \<not> isLowSurrogate (hd S) \<and>
       (r = [] \<or> \<not> isHighSurrogate (last S) \<or> \<not> isLowSurrogate (hd r)) \<and>
       blob_size rep \<le> blob_size S"
  shows "shrinks m rep"
  unfolding shrinks_def
proof (intro allI impI)
  fix s n
  assume "m s = Some n"
  from assms [OF this] obtain S r where "s = S @ r" "n = length S" "S \<noteq> []" "\<not> isLowSurrogate (hd S)"
    "r = [] \<or> \<not> isHighSurrogate (last S) \<or> \<not> isLowSurrogate (hd r)" "blob_size rep \<le> blob_size S"
    by blast
  then show "\<not> isLowSurrogate (hd s) \<and>
        (drop n s = [] \<or> \<not> isHighSurrogate (last (take n s)) \<or> \<not> isLowSurrogate (hd (drop n s))) \<and>
        blob_size rep \<le> blob_size (take n s)"
    by auto
qed

lemma shrinks_strictlyI:
  assumes "\<And>s n. m s = Some n \<Longrightarrow>
     \<exists>S r. s = S @ r \<and> n = length S \<and> S \<noteq> [] \<and> \<not> isLowSurrogate (hd S) \<and>
       (r = [] \<or> \<not> isHighSurrogate (last S) \<or> \<not> isLowSurrogate (hd r)) \<and>
       blob_size rep < blob_size S"
  shows "shrinks_strictly m rep"
  unfolding shrinks_strictly_def
proof (intro conjI allI impI)
  show "shrinks m rep"
  proof (rule shrinksI)
    fix s n
    assume "m s = Some n"
    from assms [OF this] obtain S r where "s = S @ r" "n = length S" "S \<noteq> []" "\<not> isLowSurrogate (hd S)"
      "r = [] \<or> \<not> isHighSurrogate (last S) \<or> \<not> isLowSurrogate (hd r)" "blob_size rep < blob_size S"
      by blast
    then have "s = S @ r \<and> n = length S \<and> S \<noteq> [] \<and> \<not> isLowSurrogate (hd S) \<and>
       (r = [] \<or> \<not> isHighSurrogate (last S) \<or> \<not> isLowSurrogate (hd r)) \<and>
       blob_size rep \<le> blob_size S"
      by simp
    then show "\<exists>S r. s = S @ r \<and> n = length S \<and> S \<noteq> [] \<and> \<not> isLowSurrogate (hd S) \<and>
       (r = [] \<or> \<not> isHighSurrogate (last S) \<or> \<not> isLowSurrogate (hd r)) \<and>
       blob_size rep \<le> blob_size S"
      by blast
  qed
next
  fix s n
  assume "m s = Some n"
  from assms [OF this] show "blob_size rep < blob_size (take n s)" by auto
qed

lemma ascii_not_surrogate: "c < 0x80 \<Longrightarrow> \<not> isLowSurrogate c \<and> \<not> isHighSurrogate c"
  by (auto simp: isLowSurrogate_def isHighSurrogate_def word_le_nat_alt word_less_nat_alt)

lemma shrinks_delimited:
  assumes "opn \<noteq> []" "\<not> isLowSurrogate (hd opn)" "cls \<noteq> []" "\<not> isHighSurrogate (last cls)"
  shows "shrinks_strictly (m_delimited opn cls) []"
proof (rule shrinks_strictlyI)
  fix s n
  assume "m_delimited opn cls s = Some n"
  then obtain b r where "s = opn @ b @ cls @ r" "n = length opn + length b + length cls"
    by (rule m_delimited_SomeE)
  then have "s = (opn @ b @ cls) @ r \<and> n = length (opn @ b @ cls)" by simp
  moreover have "0 < blob_size (opn @ b @ cls)" using assms(1) by (intro blob_size_pos) simp
  ultimately show "\<exists>S r. s = S @ r \<and> n = length S \<and> S \<noteq> [] \<and> \<not> isLowSurrogate (hd S) \<and>
       (r = [] \<or> \<not> isHighSurrogate (last S) \<or> \<not> isLowSurrogate (hd r)) \<and>
       blob_size [] < blob_size S"
    using assms by (intro exI [of _ "opn @ b @ cls"] exI [of _ r]) auto
qed

lemma shrinks_block_comment: "shrinks_strictly m_block_comment []"
  unfolding m_block_comment_def js_literals
  by (rule shrinks_delimited) (simp_all add: ascii_not_surrogate)

lemma shrinks_html_comment: "shrinks_strictly m_html_comment []"
  unfolding m_html_comment_def js_literals
  by (rule shrinks_delimited) (simp_all add: ascii_not_surrogate)

lemma line_terminator_not_surrogate: "isLineTerminator c \<Longrightarrow> \<not> isLowSurrogate c"
  by (auto simp: isLineTerminator_def isLowSurrogate_def word_le_nat_alt)

lemma shrinks_line_comment: "shrinks_strictly m_line_comment []"
proof (rule shrinks_strictlyI)
  fix s n
  assume "m_line_comment s = Some n"
  then obtain l r where "s = 0x2F # 0x2F # l @ r" "r = [] \<or> isLineTerminator (hd r)"
    "n = Suc (Suc (length l))"
    by (rule m_line_comment_SomeE)
  then have "s = (0x2F # 0x2F # l) @ r \<and> n = length (0x2F # 0x2F # l) \<and>
     (r = [] \<or> \<not> isLowSurrogate (hd r))"
    using line_terminator_not_surrogate by auto
  moreover have "0 < blob_size (0x2F # 0x2F # l)" by (intro blob_size_pos) simp
  ultimately show "\<exists>S r. s = S @ r \<and> n = length S \<and> S \<noteq> [] \<and> \<not> isLowSurrogate (hd S) \<and>
       (r = [] \<or> \<not> isHighSurrogate (last S) \<or> \<not> isLowSurrogate (hd r)) \<and>
       blob_size [] < blob_size S"
    by (intro exI [of _ "0x2F # 0x2F # l"] exI [of _ r]) (auto simp: ascii_not_surrogate)
qed

lemma last_ws_run:
  "isWhiteSpace w \<Longrightarrow> \<forall>c \<in> set ws. isWhiteSpace c \<Longrightarrow> isWhiteSpace (last (w # ws))"
  by (cases ws rule: rev_cases) auto

lemma blob_size_single: "blob_size [c] = unit_size c"
  by (simp add: blob_size_Cons)

lemma shrinks_ws: "shrinks m_ws [0x20]"
proof (rule shrinksI)
  fix s n
  assume "m_ws s = Some n"
  then obtain w ws r where s: "s = w # ws @ r" "isWhiteSpace w" "\<forall>c \<in> set ws. isWhiteSpace c"
    "n = Suc (length ws)"
    by (auto elim!: m_ws_SomeE)
  have "0 < blob_size (w # ws)" by (intro blob_size_pos) simp
  moreover have "blob_size [0x20] = 1" by (simp add: blob_size_single unit_size_def isHighSurrogate_def isLowSurrogate_def)
  ultimately show "\<exists>S r. s = S @ r \<and> n = length S \<and> S \<noteq> [] \<and> \<not> isLowSurrogate (hd S) \<and>
       (r = [] \<or> \<not> isHighSurrogate (last S) \<or> \<not> isLowSurrogate (hd r)) \<and>
       blob_size [0x20] \<le> blob_size S"
    using s last_ws_run [OF s(2,3)] ws_not_surrogate
    by (intro exI [of _ "w # ws"] exI [of _ r]) auto
qed

lemma shrinks_chr_ws:
  assumes "\<not> isLowSurrogate x"
  shows "shrinks (m_chr_ws x) [x]"
proof (rule shrinksI)
  fix s n
  assume "m_chr_ws x s = Some n"
  then obtain w ws r where s: "s = x # w # ws @ r" "isWhiteSpace w" "\<forall>c \<in> set ws. isWhiteSpace c"
    "n = Suc (Suc (length ws))"
    by (auto elim!: m_chr_ws_SomeE)
  have "blob_size ([x] @ (w # ws)) = blob_size [x] + blob_size (w # ws)"
    using s(2) ws_not_surrogate by (intro blob_size_append_clean) auto
  then have "blob_size [x] \<le> blob_size (x # w # ws)" by simp
  moreover have "isWhiteSpace (last (x # w # ws))" using last_ws_run [OF s(2,3)] by simp
  ultimately show "\<exists>S r. s = S @ r \<and> n = length S \<and> S \<noteq> [] \<and> \<not> isLowSurrogate (hd S) \<and>
       (r = [] \<or> \<not> isHighSurrogate (last S) \<or> \<not> isLowSurrogate (hd r)) \<and>
       blob_size [x] \<le> blob_size S"
    using s assms ws_not_surrogate
    by (intro exI [of _ "x # w # ws"] exI [of _ r]) auto
qed

lemma shrinks_ws_chr:
  assumes "\<not> isLowSurrogate x" "\<not> isHighSurrogate x"
  shows "shrinks (m_ws_chr x) [x]"
proof (rule shrinksI)
  fix s n
  assume "m_ws_chr x s = Some n"
  then obtain w ws r where s: "s = w # ws @ x # r" "isWhiteSpace w" "\<forall>c \<in> set ws. isWhiteSpace c"
    "n = Suc (Suc (length ws))"
    by (auto elim!: m_ws_chr_SomeE)
  have "blob_size ((w # ws) @ [x]) = blob_size (w # ws) + blob_size [x]"
    using assms by (intro blob_size_append_clean) auto
  then have "blob_size [x] \<le> blob_size (w # ws @ [x])" by simp
  then show "\<exists>S r. s = S @ r \<and> n = length S \<and> S \<noteq> [] \<and> \<not> isLowSurrogate (hd S) \<and>
       (r = [] \<or> \<not> isHighSurrogate (last S) \<or> \<not> isLowSurrogate (hd r)) \<and>
       blob_size [x] \<le> blob_size S"
    using s assms ws_not_surrogate
    by (intro exI [of _ "w # ws @ [x]"] exI [of _ r]) auto
qed

lemma shrinks_gt_ws_lt: "shrinks m_gt_ws_lt [0x3E, 0x3C]"
proof (rule shrinksI)
  fix s n
  assume "m_gt_ws_lt s = Some n"
  then obtain w ws r where s: "s = 0x3E # w # ws @ 0x3C # r" "isWhiteSpace w"
    "\<forall>c \<in> set ws. isWhiteSpace c" "n = Suc (Suc (Suc (length ws)))"
    by (auto elim!: m_gt_ws_lt_SomeE)
  have a: "\<not> isLowSurrogate 0x3C \<and> \<not> isHighSurrogate 0x3C \<and> \<not> isLowSurrogate 0x3E \<and> \<not> isHighSurrogate 0x3E"
    by (simp add: ascii_not_surrogate)
  have "blob_size ([0x3E] @ (w # ws) @ [0x3C]) = blob_size [0x3E] + blob_size (w # ws) + blob_size [0x3C]"
    using a s(2) ws_not_surrogate by (intro blob_segment_eq) auto
  moreover have "0 < blob_size (w # ws)" by (intro blob_size_pos) simp
  moreover have "blob_size [0x3E, 0x3C] = blob_size [0x3E] + blob_size [0x3C]"
    using a by (simp add: blob_size_Cons)
  ultimately have "blob_size [0x3E, 0x3C] \<le> blob_size (0x3E # w # ws @ [0x3C])" by simp
  then show "\<exists>S r. s = S @ r \<and> n = length S \<and> S \<noteq> [] \<and> \<not> isLowSurrogate (hd S) \<and>
       (r = [] \<or> \<not> isHighSurrogate (last S) \<or> \<not> isLowSurrogate (hd r)) \<and>
       blob_size [0x3E, 0x3C] \<le> blob_size S"
    using s a
    by (intro exI [of _ "0x3E # w # ws @ [0x3C]"] exI [of _ r]) auto
qed

lemma blob_size_trim: "blob_size (trim s) \<le> blob_size s"
proof -
  obtain a b where s: "s = a @ trim s @ b" and a: "\<forall>c \<in> set a. isWhiteSpace c"
    and b: "\<forall>c \<in> set b. isWhiteSpace c"
    by (rule trim_decomp)
  have "a = [] \<or> \<not> isHighSurrogate (last a)" using a ws_not_surrogate by (cases a rule: rev_cases) auto
  then have "blob_size (a @ trim s @ b) = blob_size a + blob_size (trim s @ b)"
    by (intro blob_size_append_clean) auto
  moreover have "b = [] \<or> \<not> isLowSurrogate (hd b)" using b ws_not_surrogate by (cases b) auto
  then have "blob_size (trim s @ b) = blob_size (trim s) + blob_size b"
    by (intro blob_size_append_clean) auto
  ultimately have "blob_size s = blob_size a + blob_size (trim s) + blob_size b"
    using s by simp
  then show ?thesis by simp
qed

lemma blob_collapse_less:
  "has_adj ws_pair s \<Longrightarrow> blob_size (pre @ replace_all m_ws [0x20] s) < blob_size (pre @ s)"
proof (induction s arbitrary: pre rule: length_induct)
  case (1 s)
  note m = proper_m_ws
  from 1(2) obtain c cs where s: "s = c # cs" by (cases s) auto
  show ?case
  proof (cases "m_ws s")
    case None
    with s have "\<not> isWhiteSpace c" by (simp add: m_ws_None)
    with 1(2) s have "has_adj ws_pair cs" by (simp add: has_adj_Cons)
    with s have "blob_size ((pre @ [c]) @ replace_all m_ws [0x20] cs) < blob_size ((pre @ [c]) @ cs)"
      by (intro 1(1) [rule_format]) simp_all
    with None s m show ?thesis by (simp add: replace_all_Cons_proper)
  next
    case (Some n)
    then obtain w ws r where t: "s = w # ws @ r" and w: "isWhiteSpace w"
      and ws: "\<forall>c \<in> set ws. isWhiteSpace c" and r: "r = [] \<or> \<not> isWhiteSpace (hd r)"
      and n: "n = Suc (length ws)" and d: "drop n s = r"
      by (auto elim!: m_ws_SomeE)
    have tk: "take n s = w # ws" using t n by simp
    have eq: "blob_size (pre @ s) = blob_size pre + blob_size (w # ws) + blob_size r"
      using shrinks_step(2) [OF m shrinks_ws Some, of pre] tk d by simp
    have sp: "blob_size [0x20] = 1"
      by (simp add: blob_size_single unit_size_def isHighSurrogate_def isLowSurrogate_def)
    have R: "replace_all m_ws [0x20] s = [0x20] @ replace_all m_ws [0x20] r"
      using Some s m d by (simp add: replace_all_Cons_proper)
    show ?thesis
    proof (cases ws)
      case Nil
      with 1(2) t r w have "has_adj ws_pair r" by (auto simp: has_adj_Cons)
      moreover have "length r < length s" using t by simp
      ultimately have "blob_size ((pre @ [0x20]) @ replace_all m_ws [0x20] r) < blob_size ((pre @ [0x20]) @ r)"
        using 1(1) by blast
      also have "\<dots> \<le> blob_size pre + blob_size [0x20] + blob_size r"
        using blob_segment_le [of pre "[0x20]" r] by simp
      also have "\<dots> \<le> blob_size pre + blob_size (w # ws) + blob_size r"
        using sp blob_size_pos [of "w # ws"] by simp
      finally show ?thesis using eq R by simp
    next
      case (Cons v vs)
      have "blob_size ([w] @ ws) = blob_size [w] + blob_size ws"
        using ws Cons ws_not_surrogate by (intro blob_size_append_clean) auto
      moreover have "0 < blob_size [w]" "0 < blob_size ws"
        using Cons by (auto intro!: blob_size_pos)
      ultimately have big: "2 \<le> blob_size (w # ws)" by simp
      have "blob_size ((pre @ [0x20]) @ replace_all m_ws [0x20] r) \<le> blob_size ((pre @ [0x20]) @ r)"
        by (rule blob_replace_all_le [OF m shrinks_ws])
      also have "\<dots> \<le> blob_size pre + blob_size [0x20] + blob_size r"
        using blob_segment_le [of pre "[0x20]" r] by simp
      also have "\<dots> < blob_size pre + blob_size (w # ws) + blob_size r"
        using sp big by simp
      finally show ?thesis using eq R by simp
    qed
  qed
qed

lemma blob_pass_le: "proper m \<Longrightarrow> shrinks m rep \<Longrightarrow> blob_size (replace_all m rep s) \<le> blob_size s"
  using blob_replace_all_le [of m rep "[]" s] by simp

lemma blob_pass_less:
  "proper m \<Longrightarrow> shrinks_strictly m rep \<Longrightarrow> regex_test m s \<Longrightarrow>
   blob_size (replace_all m rep s) < blob_size s"
  using blob_replace_all_less [of m rep s "[]"] by simp

lemma blob_tail_le:
  "blob_size
     (trim (replace_all (m_ws_chr 0x7D) [0x7D]
       (replace_all (m_chr_ws 0x7B) [0x7B] (replace_all (m_chr_ws 0x3B) [0x3B] s)))) \<le> blob_size s"
proof -
  let ?a = "replace_all (m_chr_ws 0x3B) [0x3B] s"
  let ?b = "replace_all (m_chr_ws 0x7B) [0x7B] ?a"
  let ?d = "replace_all (m_ws_chr 0x7D) [0x7D] ?b"
  have "blob_size (trim ?d) \<le> blob_size ?d" by (rule blob_size_trim)
  also have "\<dots> \<le> blob_size ?b"
    by (intro blob_pass_le proper_m_ws_chr shrinks_ws_chr) (simp_all add: ascii_not_surrogate)
  also have "\<dots> \<le> blob_size ?a"
    by (intro blob_pass_le proper_m_chr_ws shrinks_chr_ws) (simp_all add: ascii_not_surrogate)
  also have "\<dots> \<le> blob_size s"
    by (intro blob_pass_le proper_m_chr_ws shrinks_chr_ws) (simp_all add: ascii_not_surrogate)
  finally show ?thesis .
qed

lemma blob_ws_passes_le: "blob_size (ws_passes s) \<le> blob_size s"
  unfolding ws_passes_def
  using blob_tail_le [of "replace_all m_ws [0x20] s"] blob_pass_le [OF proper_m_ws shrinks_ws, of s]
  by simp

lemma blob_ws_passes_less: "has_adj ws_pair s \<Longrightarrow> blob_size (ws_passes s) < blob_size s"
  unfolding ws_passes_def
  using blob_tail_le [of "replace_all m_ws [0x20] s"] blob_collapse_less [of s "[]"]
  by simp

lemma blob_css:
  "blob_size (ws_passes (replace_all m_block_comment [] s)) \<le> blob_size s"
  "redundant T_css s \<Longrightarrow> blob_size (ws_passes (replace_all m_block_comment [] s)) < blob_size s"
proof -
  let ?k = "replace_all m_block_comment [] s"
  have k: "blob_size ?k \<le> blob_size s"
    using shrinks_block_comment by (intro blob_pass_le proper_m_block_comment) (simp add: shrinks_strictly_def)
  with blob_ws_passes_le [of ?k] show "blob_size (ws_passes ?k) \<le> blob_size s" by simp
  assume r: "redundant T_css s"
  show "blob_size (ws_passes ?k) < blob_size s"
  proof (cases "regex_test m_block_comment s")
    case True
    then have "blob_size ?k < blob_size s"
      by (intro blob_pass_less proper_m_block_comment shrinks_block_comment)
    with blob_ws_passes_le [of ?k] show ?thesis by simp
  next
    case False
    then have "?k = s" by (intro replace_all_id proper_m_block_comment)
    moreover from False r have "has_adj ws_pair s" by (simp add: redundant_def)
    ultimately show ?thesis using blob_ws_passes_less [of s] by simp
  qed
qed

lemma blob_js:
  "blob_size (ws_passes (replace_all m_block_comment [] (replace_all m_line_comment [] s))) \<le> blob_size s"
  "redundant T_js s \<Longrightarrow>
   blob_size (ws_passes (replace_all m_block_comment [] (replace_all m_line_comment [] s))) < blob_size s"
proof -
  let ?l = "replace_all m_line_comment [] s"
  let ?k = "replace_all m_block_comment [] ?l"
  have l: "blob_size ?l \<le> blob_size s"
    using shrinks_line_comment by (intro blob_pass_le proper_m_line_comment) (simp add: shrinks_strictly_def)
  with blob_css(1) [of ?l] show le: "blob_size (ws_passes ?k) \<le> blob_size s" by simp
  assume r: "redundant T_js s"
  show "blob_size (ws_passes ?k) < blob_size s"
  proof (cases "regex_test m_line_comment s")
    case True
    then have "blob_size ?l < blob_size s"
      by (intro blob_pass_less proper_m_line_comment shrinks_line_comment)
    with blob_css(1) [of ?l] show ?thesis by simp
  next
    case False
    then have "?l = s" by (intro replace_all_id proper_m_line_comment)
    moreover from False r have "redundant T_css s" by (simp add: redundant_def)
    ultimately show ?thesis using blob_css(2) [of s] by simp
  qed
qed

lemma blob_html:
  "blob_size (trim (replace_all m_gt_ws_lt [0x3E, 0x3C] (replace_all m_ws [0x20]
     (replace_all m_html_comment [] s)))) \<le> blob_size s"
  "redundant T_html s \<Longrightarrow>
   blob_size (trim (replace_all m_gt_ws_lt [0x3E, 0x3C] (replace_all m_ws [0x20]
     (replace_all m_html_comment [] s)))) < blob_size s"
proof -
  let ?h = "replace_all m_html_comment [] s"
  have tail: "blob_size (trim (replace_all m_gt_ws_lt [0x3E, 0x3C] t)) \<le> blob_size t" for t
    using blob_size_trim [of "replace_all m_gt_ws_lt [0x3E, 0x3C] t"]
      blob_pass_le [OF proper_m_gt_ws_lt shrinks_gt_ws_lt, of t] by simp
  have c: "blob_size (replace_all m_ws [0x20] t) \<le> blob_size t" for t
    by (rule blob_pass_le [OF proper_m_ws shrinks_ws])
  have h: "blob_size ?h \<le> blob_size s"
    using shrinks_html_comment by (intro blob_pass_le proper_m_html_comment) (simp add: shrinks_strictly_def)
  show "blob_size (trim (replace_all m_gt_ws_lt [0x3E, 0x3C] (replace_all m_ws [0x20] ?h))) \<le> blob_size s"
    using tail [of "replace_all m_ws [0x20] ?h"] c [of ?h] h by simp
  assume r: "redundant T_html s"
  show "blob_size (trim (replace_all m_gt_ws_lt [0x3E, 0x3C] (replace_all m_ws [0x20] ?h))) < blob_size s"
  proof (cases "regex_test m_html_comment s")
    case True
    then have "blob_size ?h < blob_size s"
      by (intro blob_pass_less proper_m_html_comment shrinks_html_comment)
    then show ?thesis using tail [of "replace_all m_ws [0x20] ?h"] c [of ?h] by simp
  next
    case False
    then have "?h = s" by (intro replace_all_id proper_m_html_comment)
    moreover from False r have "has_adj ws_pair s" by (simp add: redundant_def)
    then have "blob_size (replace_all m_ws [0x20] s) < blob_size s"
      using blob_collapse_less [of s "[]"] by simp
    ultimately show ?thesis using tail [of "replace_all m_ws [0x20] s"] by simp
  qed
qed

lemma js_output_no_comment:
  assumes "type = T_js \<or> type = T_jsx" "mockMinify content type = Inr y"
  shows "\<not> has_comment type y"
proof -
  let ?l = "replace_all m_line_comment [] content"
  let ?k = "replace_all m_block_comment [] ?l"
  from assms have y: "y = ws_passes ?k" by (simp del: mockMinify.simps add: mockMinify_js)
  have l: "\<not> has_adj slashes ?l" by (rule no_slashes_line_comment)
  then have "\<not> has_adj slashes ?k" by (rule block_comment_preserves_slashes)
  then have "\<not> has_adj slashes y" unfolding y by (rule ws_passes_slashes)
  then have 1: "\<not> regex_test m_line_comment y" using regex_test_line_comment by blast
  have "\<not> regex_test m_block_comment ?k" using l by (rule no_comment_block_comment)
  then have 2: "\<not> regex_test m_block_comment y" unfolding y by (rule ws_passes_no_comment)
  from 1 2 assms(1) show ?thesis by auto
qed

lemma comment_not_fixed:
  assumes "type \<noteq> T_json" "has_comment type y"
  shows "mockMinify y type \<noteq> Inr y"
proof -
  from assms(2) have r: "redundant type y" "redundant T_js y \<or> type \<noteq> T_jsx"
    by (cases type; simp add: redundant_def)+
  show ?thesis
  proof (cases type)
    case T_html
    with r blob_html(2) [of y] show ?thesis by (auto simp: js_literals)
  next
    case T_css
    with r blob_css(2) [of y] show ?thesis by (auto simp del: mockMinify.simps simp: mockMinify_css)
  next
    case T_js
    with r blob_js(2) [of y] show ?thesis by (auto simp del: mockMinify.simps simp: mockMinify_js)
  next
    case T_jsx
    with r blob_js(2) [of y] show ?thesis by (auto simp del: mockMinify.simps simp: mockMinify_js)
  next
    case T_json
    with assms show ?thesis by simp
  qed
qed

lemma blob_size_ascii: "\<forall>c \<in> set s. c < 0x80 \<Longrightarrow> blob_size s = length s"
  by (induction s) (auto simp: blob_size_Cons unit_size_def ascii_not_surrogate)

section \<open>Rounding to a double\<close>

lemma pow2_powi: "pow2 e = 2 powi e"
  by (simp add: pow2_def power_int_def inverse_eq_divide power_one_over)

lemma floorlog_rat_bounds:
  assumes v: "0 < v" and b: "1 < b"
  shows "of_nat b powi (floorlog_rat b v) \<le> v \<and> v < of_nat b powi (floorlog_rat b v + 1)"
proof -
  have b0: "(0::rat) < of_nat b" using b by simp
  show ?thesis
  proof (cases "1 \<le> v")
    case True
    define n where "n = nat \<lfloor>v\<rfloor>"
    define f where "f = floorlog b n"
    from True have n: "0 < n" "of_nat n \<le> v" "v < of_nat n + 1"
      unfolding n_def by (auto simp: of_nat_nat floor_less_iff le_floor_iff) linarith+
    from floorlog_bounds [OF n(1) b] have fb: "b ^ (f - 1) \<le> n" "n < b ^ f"
      unfolding f_def by auto
    from fb(2) n(1) have f0: "0 < f" by (cases f) auto
    have e: "floorlog_rat b v = int f - 1"
      using True by (simp add: floorlog_rat_def n_def f_def)
    have "nat (int f - 1) = f - 1" by simp
    then have "of_nat b powi (int f - 1) = (of_nat b :: rat) ^ (f - 1)"
      using f0 by (simp add: power_int_def)
    also have "\<dots> = of_nat (b ^ (f - 1))" by simp
    also have "\<dots> \<le> of_nat n" using fb(1) of_nat_le_iff by blast
    finally have A: "of_nat b powi (floorlog_rat b v) \<le> v" using n(2) e by simp
    have "Suc n \<le> b ^ f" using fb(2) by simp
    then have "(of_nat (Suc n) :: rat) \<le> of_nat (b ^ f)" by (simp only: of_nat_le_iff)
    then have "of_nat n + 1 \<le> (of_nat (b ^ f) :: rat)" by simp
    then have "v < of_nat b ^ f" using n(3) by simp
    then have "v < of_nat b powi (floorlog_rat b v + 1)"
      using e by (simp add: power_int_def)
    with A show ?thesis by simp
  next
    case False
    define c where "c = \<lceil>1 / v\<rceil>"
    define n where "n = nat (c - 1)"
    define f where "f = floorlog b n"
    from False v have w: "1 < 1 / v" by simp
    then have c2: "2 \<le> c" unfolding c_def by (simp add: le_ceiling_iff)
    then have n: "0 < n" "of_nat n = (of_int c :: rat) - 1" unfolding n_def by auto
    have cw: "of_int c - 1 < 1 / v" "1 / v \<le> of_int c"
      unfolding c_def by linarith+
    from floorlog_bounds [OF n(1) b] have fb: "b ^ (f - 1) \<le> n" "n < b ^ f"
      unfolding f_def by auto
    from fb(2) n(1) have f0: "0 < f" by (cases f) auto
    have e: "floorlog_rat b v = - int f"
      using False by (simp add: floorlog_rat_def n_def f_def c_def)
    have "(of_nat (b ^ (f - 1)) :: rat) \<le> of_nat n" using fb(1) of_nat_le_iff by blast
    then have lo: "(of_nat b :: rat) ^ (f - 1) < 1 / v" using cw(1) n(2) by simp
    have "Suc n \<le> b ^ f" using fb(2) by simp
    then have "(of_nat (Suc n) :: rat) \<le> of_nat (b ^ f)" by (simp only: of_nat_le_iff)
    then have "of_nat n + 1 \<le> (of_nat (b ^ f) :: rat)" by simp
    then have hi: "1 / v \<le> (of_nat b :: rat) ^ f" using cw(2) n(2) by simp
    have p: "(0::rat) < of_nat b ^ f" "(0::rat) < of_nat b ^ (f - 1)" using b0 by simp_all
    from hi v p(1) have "1 / of_nat b ^ f \<le> v"
      by (simp add: field_simps)
    then have A: "of_nat b powi (floorlog_rat b v) \<le> v"
      using e f0 by (simp add: power_int_def inverse_eq_divide power_one_over)
    from lo v p(2) have "v < 1 / of_nat b ^ (f - 1)"
      by (simp add: field_simps)
    moreover have "of_nat b powi (- int f + 1) = 1 / (of_nat b :: rat) ^ (f - 1)"
      using f0 by (cases f) (auto simp: power_int_def inverse_eq_divide power_one_over)
    ultimately have "v < of_nat b powi (floorlog_rat b v + 1)"
      using e by simp
    with A show ?thesis by simp
  qed
qed

lemma round_half_even_error: "\<bar>of_int (round_half_even x) - x\<bar> \<le> 1 / 2"
  unfolding round_half_even_def Let_def by (auto simp: abs_if) linarith+

lemma round_half_even_int [simp]: "round_half_even (of_int k) = k"
  by (simp add: round_half_even_def)

lemma floorlog_rat_unique:
  assumes v: "0 < v" and b: "1 < b"
    and lo: "of_nat b powi e \<le> v" and hi: "v < of_nat b powi (e + 1)"
  shows "floorlog_rat b v = e"
proof -
  let ?f = "floorlog_rat b v"
  have b1: "(1::rat) < of_nat b" using b by simp
  from floorlog_rat_bounds [OF v b] have f: "of_nat b powi ?f \<le> v" "v < of_nat b powi (?f + 1)"
    by auto
  have "(of_nat b :: rat) powi ?f < of_nat b powi (e + 1)" using f(1) hi by simp
  then have "?f < e + 1"
    using b1 power_int_increasing [of "e + 1" ?f "of_nat b :: rat"] by (cases "?f < e + 1") auto
  moreover have "(of_nat b :: rat) powi e < of_nat b powi (?f + 1)" using f(2) lo by simp
  then have "e < ?f + 1"
    using b1 power_int_increasing [of "?f + 1" e "of_nat b :: rat"] by (cases "e < ?f + 1") auto
  ultimately show ?thesis by simp
qed

lemma pow2_pos [simp]: "0 < pow2 e"
  by (simp add: pow2_powi)

lemma pow2_nonneg [simp]: "0 \<le> pow2 e"
  using pow2_pos [of e] by (simp del: pow2_pos)

lemma pow2_add: "pow2 (a + b) = pow2 a * pow2 b"
  by (simp add: pow2_powi power_int_add)

lemma round_pos_error:
  assumes v: "0 < v" and lo: "pow2 (- 1022) \<le> v" and hi: "v \<le> 2 ^ 1023"
  shows "\<exists>r. round_pos v = Num r \<and> \<bar>r - v\<bar> \<le> v / 2 ^ 53"
proof -
  define e where "e = floorlog_rat 2 v"
  from floorlog_rat_bounds [OF v, of 2] have eb: "pow2 e \<le> v" "v < pow2 (e + 1)"
    by (auto simp: e_def pow2_powi)
  have "pow2 (- 1022) < pow2 (e + 1)" using lo eb(2) by simp
  then have "- 1022 < e + 1"
    unfolding pow2_powi using power_int_increasing [of "e + 1" "- 1022" "2 :: rat"]
    by (cases "- 1022 < e + 1") auto
  then have q: "max (e - 52) (- 1074) = e - 52" by simp
  define x where "x = v / pow2 (e - 52)"
  define r where "r = of_int (round_half_even x) * pow2 (e - 52)"
  have "pow2 (e - 52) \<noteq> 0" using pow2_pos [of "e - 52"] by (simp del: pow2_pos)
  then have "r - v = (of_int (round_half_even x) - x) * pow2 (e - 52)"
    unfolding r_def x_def by (simp add: left_diff_distrib)
  then have "\<bar>r - v\<bar> = \<bar>of_int (round_half_even x) - x\<bar> * pow2 (e - 52)"
    by (simp add: abs_mult abs_of_pos)
  also have "\<dots> \<le> 1 / 2 * pow2 (e - 52)"
    using round_half_even_error [of x] by (intro mult_right_mono) simp_all
  also have "pow2 (e - 52) = pow2 e * pow2 (- 52)"
    using pow2_add [of e "- 52"] by simp
  also have "1 / 2 * (pow2 e * pow2 (- 52)) = pow2 e / 2 ^ 53"
    by (simp add: pow2_def)
  also have "\<dots> \<le> v / 2 ^ 53" using eb(1) by (simp add: divide_right_mono)
  finally have err: "\<bar>r - v\<bar> \<le> v / 2 ^ 53" .
  then have "r \<le> v + v / 2 ^ 53" by linarith
  also have "\<dots> \<le> 2 ^ 1023 + 2 ^ 1023 / 2 ^ 53"
    using hi by (intro add_mono divide_right_mono) simp_all
  also have "\<dots> < (2 ^ 1024 :: rat)" by simp
  finally have "\<not> 2 ^ 1024 \<le> r" by simp
  then have "round_pos v = Num r"
    unfolding round_pos_def Let_def e_def [symmetric] q x_def [symmetric] r_def [symmetric] by simp
  with err show ?thesis by blast
qed

lemma round_pos_int:
  assumes k: "0 < k" "k < 2 ^ 53"
  shows "round_pos (of_int k) = Num (of_int k)"
proof -
  define v :: rat where "v = of_int k"
  define e where "e = floorlog_rat 2 v"
  have v: "0 < v" "1 \<le> v" "v < 2 ^ 53" using k by (simp_all add: v_def)
  from floorlog_rat_bounds [OF v(1), of 2] have eb: "pow2 e \<le> v" "v < pow2 (e + 1)"
    by (auto simp: e_def pow2_powi)
  have "pow2 0 < pow2 (e + 1)" using v(2) eb(2) by (simp add: pow2_def)
  then have e0: "0 \<le> e"
    unfolding pow2_powi using power_int_increasing [of "e + 1" 0 "2 :: rat"]
    by (cases "0 < e + 1") auto
  have "pow2 e < pow2 53" using v(3) eb(1) by (simp add: pow2_def)
  then have e53: "e < 53"
    unfolding pow2_powi using power_int_increasing [of 53 e "2 :: rat"]
    by (cases "e < 53") auto
  from e0 have q: "max (e - 52) (- 1074) = e - 52" by simp
  have pq: "pow2 (e - 52) = 1 / 2 ^ nat (52 - e)"
    using e53 e0 by (cases "e = 52") (auto simp: pow2_def)
  have "v / pow2 (e - 52) = of_int (k * 2 ^ nat (52 - e))"
    by (simp add: pq v_def)
  then have "round_half_even (v / pow2 (e - 52)) = k * 2 ^ nat (52 - e)"
    by (simp only: round_half_even_int)
  then have r: "of_int (round_half_even (v / pow2 (e - 52))) * pow2 (e - 52) = v"
    by (simp add: pq v_def)
  have "\<not> 2 ^ 1024 \<le> v" using v(3) by (simp add: not_le)
  then show ?thesis
    unfolding round_pos_def Let_def v_def [symmetric] e_def [symmetric] q r by simp
qed

lemma to_double_int:
  assumes "\<bar>k\<bar> < 2 ^ 53"
  shows "to_double (of_int k) = Num (of_int k)"
proof -
  consider "k = 0" | "0 < k" | "k < 0" by linarith
  then show ?thesis
  proof cases
    case 1
    then show ?thesis by (simp add: to_double_def)
  next
    case 2
    with assms have "round_pos (of_int k) = Num (of_int k)" by (intro round_pos_int) simp_all
    with 2 show ?thesis by (simp add: to_double_def)
  next
    case 3
    with assms have "round_pos (of_int (- k)) = Num (of_int (- k))" by (intro round_pos_int) simp_all
    with 3 show ?thesis by (simp add: to_double_def)
  qed
qed

lemma number_of_nat_exact: "n < 2 ^ 53 \<Longrightarrow> number_of_nat n = Num (of_nat n)"
  using to_double_int [of "int n"] by (simp add: number_of_nat_def)

lemma to_double_error:
  assumes "v \<noteq> 0" "pow2 (- 1022) \<le> \<bar>v\<bar>" "\<bar>v\<bar> \<le> 2 ^ 1023"
  shows "\<exists>r. to_double v = Num r \<and> r \<noteq> 0 \<and> \<bar>r - v\<bar> \<le> \<bar>v\<bar> / 2 ^ 53"
proof -
  have "0 < \<bar>v\<bar>" using assms(1) by simp
  from round_pos_error [OF this assms(2,3)] obtain r where r: "round_pos \<bar>v\<bar> = Num r"
    "\<bar>r - \<bar>v\<bar>\<bar> \<le> \<bar>v\<bar> / 2 ^ 53"
    by blast
  have "\<bar>v\<bar> / 2 ^ 53 < \<bar>v\<bar>" using \<open>0 < \<bar>v\<bar>\<close> by simp
  with r(2) have r0: "0 < r" by linarith
  show ?thesis
  proof (cases "0 < v")
    case True
    with r r0 show ?thesis by (auto simp: to_double_def)
  next
    case False
    with assms(1) have v: "v < 0" by simp
    with r r0 have "to_double v = Num (- r)" by (simp add: to_double_def)
    moreover have "\<bar>- r - v\<bar> = \<bar>r - \<bar>v\<bar>\<bar>" using v by simp
    ultimately show ?thesis using r r0 by auto
  qed
qed

lemma nearest_on_grid:
  fixes a k :: int and n :: nat and y :: rat
  assumes n: "0 < n" and err: "\<bar>y - of_int a / of_nat n\<bar> < 1 / (2 * of_nat n)"
    and k: "of_int k - 1 / 2 \<le> y" "y < of_int k + 1 / 2"
  shows "\<bar>(of_int k :: rat) - of_int a / of_nat n\<bar> \<le> 1 / 2"
proof -
  let ?X = "of_int a / of_nat n :: rat"
  have n0: "(0::rat) < of_nat n" using n by simp
  have up: "?X \<le> of_int k + 1 / 2"
  proof (rule ccontr)
    assume "\<not> ?X \<le> of_int k + 1 / 2"
    then have "of_int k + 1 / 2 < ?X" by simp
    then have "(of_int k + 1 / 2) * (2 * of_nat n) < ?X * (2 * of_nat n)"
      using n0 by (intro mult_strict_right_mono) simp_all
    then have "of_int ((2 * k + 1) * int n) < (of_int (2 * a) :: rat)"
      using n0 by (simp add: field_simps)
    then have "(2 * k + 1) * int n < 2 * a" by (simp only: of_int_less_iff)
    then have "(2 * k + 1) * int n + 1 \<le> 2 * a" by simp
    then have "(of_int ((2 * k + 1) * int n + 1) :: rat) \<le> of_int (2 * a)" by (simp only: of_int_le_iff)
    then have "(of_int k + 1 / 2) * (2 * of_nat n) + 1 \<le> ?X * (2 * of_nat n)"
      using n0 by (simp add: field_simps)
    moreover have "((of_int k :: rat) + 1 / 2 + 1 / (2 * of_nat n)) * (2 * of_nat n) = (of_int k + 1 / 2) * (2 * of_nat n) + 1"
      using n0 by (simp add: distrib_right)
    ultimately have "(of_int k + 1 / 2 + 1 / (2 * of_nat n)) * (2 * of_nat n) \<le> ?X * (2 * of_nat n)"
      by simp
    then have "of_int k + 1 / 2 + 1 / (2 * of_nat n) \<le> ?X"
      using n0 mult_le_cancel_right_pos [of "2 * of_nat n" "of_int k + 1 / 2 + 1 / (2 * of_nat n)" ?X]
      by simp
    with k(2) err show False by linarith
  qed
  have lo: "of_int k - 1 / 2 \<le> ?X"
  proof (rule ccontr)
    assume "\<not> of_int k - 1 / 2 \<le> ?X"
    then have "?X < of_int k - 1 / 2" by simp
    then have "?X * (2 * of_nat n) < (of_int k - 1 / 2) * (2 * of_nat n)"
      using n0 by (intro mult_strict_right_mono) simp_all
    then have "(of_int (2 * a) :: rat) < of_int ((2 * k - 1) * int n)"
      using n0 by (simp add: field_simps)
    then have "2 * a < (2 * k - 1) * int n" by (simp only: of_int_less_iff)
    then have "2 * a + 1 \<le> (2 * k - 1) * int n" by simp
    then have "(of_int (2 * a + 1) :: rat) \<le> of_int ((2 * k - 1) * int n)" by (simp only: of_int_le_iff)
    then have "?X * (2 * of_nat n) + 1 \<le> (of_int k - 1 / 2) * (2 * of_nat n)"
      using n0 by (simp add: field_simps)
    moreover have "(?X + 1 / (2 * of_nat n)) * (2 * of_nat n) = ?X * (2 * of_nat n) + 1"
      using n0 by (simp add: distrib_right)
    ultimately have "(?X + 1 / (2 * of_nat n)) * (2 * of_nat n) \<le> (of_int k - 1 / 2) * (2 * of_nat n)"
      by simp
    then have "?X + 1 / (2 * of_nat n) \<le> of_int k - 1 / 2"
      using n0 mult_le_cancel_right_pos [of "2 * of_nat n" "?X + 1 / (2 * of_nat n)" "of_int k - 1 / 2"]
      by simp
    with k(1) err show False by linarith
  qed
  from up lo show ?thesis by linarith
qed

lemma Math_round_nearest:
  "\<exists>k. (Math_round (Num y) = Num (of_int k) \<or> Math_round (Num y) = NegZero \<and> k = 0) \<and>
       of_int k - 1 / 2 \<le> y \<and> y < of_int k + 1 / 2"
proof -
  let ?k = "\<lfloor>y + 1 / 2\<rfloor>"
  have "of_int ?k \<le> y + 1 / 2" "y + 1 / 2 < of_int ?k + 1" by linarith+
  then have "of_int ?k - 1 / 2 \<le> y \<and> y < of_int ?k + 1 / 2" by linarith
  moreover have "Math_round (Num y) = Num (of_int ?k) \<or> Math_round (Num y) = NegZero \<and> ?k = 0"
    by (simp add: Let_def)
  ultimately show ?thesis by blast
qed

lemma reduction_nearest:
  assumes o: "0 < orig" "orig < 2 ^ 43" and m: "mini < 2 ^ 43"
  shows "\<exists>k. (reduction orig mini = Num (of_int k) \<or> reduction orig mini = NegZero \<and> k = 0) \<and>
             \<bar>of_int k - 100 * (of_int (int orig - int mini)) / of_nat orig\<bar> \<le> (1 / 2 :: rat)"
proof -
  define a where "a = int orig - int mini"
  define dn :: rat where "dn = of_nat orig"
  have dn: "0 < dn" "dn < 2 ^ 43" "1 \<le> dn" using o by (simp_all add: dn_def)
  have a: "\<bar>a\<bar> < 2 ^ 43" using o m by (simp add: a_def abs_if)
  have no: "number_of_nat orig = Num dn" unfolding dn_def using o by (intro number_of_nat_exact) simp
  have nm: "number_of_nat mini = Num (of_nat mini)" using m by (intro number_of_nat_exact) simp
  have "to_double (of_int a) = Num (of_int a)" using a by (intro to_double_int) simp
  then have sub: "js_sub (Num dn) (Num (of_nat mini)) = Num (of_int a)"
    using dn(1) by (simp add: js_sub_def a_def dn_def)
  have red0: "reduction orig mini =
      Math_round (js_mul (js_div (Num (of_int a)) (Num dn)) (Num 100))"
    by (simp add: reduction_def no nm sub)
  show ?thesis
  proof (cases "a = 0")
    case True
    then have "js_div (Num (of_int a)) (Num dn) = Num 0"
      using dn(1) by (simp add: js_div_def signed_zero_def Let_def)
    moreover have "js_mul (Num 0) (Num 100) = Num 0"
      by (simp add: js_mul_def signed_zero_def Let_def)
    moreover have "\<lfloor>1 / 2 :: rat\<rfloor> = 0" by (simp add: floor_eq_iff)
    ultimately have "reduction orig mini = Num 0"
      by (simp add: red0 Let_def)
    with True show ?thesis unfolding a_def [symmetric] by (intro exI [of _ 0]) simp
  next
    case False
    define v1 :: rat where "v1 = of_int a / dn"
    have a1: "(1::rat) \<le> \<bar>of_int a\<bar>" using False by (simp add: abs_if)
    have a2: "\<bar>of_int a :: rat\<bar> < 2 ^ 43" using a by (metis of_int_abs of_int_less_iff of_int_numeral of_int_power)
    have v1abs: "\<bar>v1\<bar> = \<bar>of_int a\<bar> / dn" using dn(1) by (simp add: v1_def)
    have v1lo: "1 / 2 ^ 43 \<le> \<bar>v1\<bar>"
    proof -
      have "1 / 2 ^ 43 \<le> 1 / dn" using dn by (simp add: field_simps)
      also have "\<dots> \<le> \<bar>of_int a\<bar> / dn" using a1 dn(1) by (intro divide_right_mono) simp_all
      finally show ?thesis by (simp add: v1abs)
    qed
    have v1hi: "\<bar>v1\<bar> < 2 ^ 43"
    proof -
      have "\<bar>of_int a\<bar> / dn \<le> \<bar>of_int a\<bar> / 1" using dn by (intro divide_left_mono) simp_all
      with a2 show ?thesis by (simp add: v1abs)
    qed
    have v1n: "v1 \<noteq> 0" using v1lo by auto
    have "pow2 (- 1022) \<le> 1 / 2 ^ 44" by (simp add: pow2_def)
    then have p: "pow2 (- 1022) \<le> \<bar>v1\<bar>" "pow2 (- 1022) \<le> 1 / 2 ^ 44" using v1lo by simp_all
    have "\<bar>v1\<bar> \<le> 2 ^ 1023" using v1hi by simp
    from to_double_error [OF v1n p(1) this] obtain r1 where r1: "to_double v1 = Num r1" "r1 \<noteq> 0"
      "\<bar>r1 - v1\<bar> \<le> \<bar>v1\<bar> / 2 ^ 53"
      by blast
    have dv: "js_div (Num (of_int a)) (Num dn) = Num r1"
      using False dn(1) r1(1) by (simp add: js_div_def Let_def v1_def)
    have r1hi: "\<bar>r1\<bar> \<le> 2 * \<bar>v1\<bar>" using r1(3) by (simp add: abs_if split: if_splits) 
    have r1lo: "\<bar>v1\<bar> / 2 \<le> \<bar>r1\<bar>" using r1(3) by (simp add: abs_if split: if_splits)
    define v2 where "v2 = r1 * 100"
    have v2n: "v2 \<noteq> 0" using r1(2) by (simp add: v2_def)
    have v2abs: "\<bar>v2\<bar> = 100 * \<bar>r1\<bar>" by (simp add: v2_def abs_mult)
    have "1 / 2 ^ 44 \<le> \<bar>v1\<bar> / 2" using v1lo by simp
    then have "pow2 (- 1022) \<le> \<bar>v2\<bar>" using r1lo p(2) v2abs by linarith
    moreover have "\<bar>v2\<bar> \<le> 2 ^ 1023" using r1hi v1hi v2abs by simp
    ultimately obtain r2 where r2: "to_double v2 = Num r2" "\<bar>r2 - v2\<bar> \<le> \<bar>v2\<bar> / 2 ^ 53"
      using to_double_error [OF v2n] by blast
    have ml: "js_mul (Num r1) (Num 100) = Num r2"
      using r1(2) r2(1) by (simp add: js_mul_def Let_def v2_def)
    have red: "reduction orig mini = Math_round (Num r2)"
      by (simp only: red0 dv ml)
    obtain k where k: "Math_round (Num r2) = Num (of_int k) \<or> Math_round (Num r2) = NegZero \<and> k = 0"
      "of_int k - 1 / 2 \<le> r2" "r2 < of_int k + 1 / 2"
      using Math_round_nearest [of r2] by blast
    let ?X = "of_int (100 * a) / of_nat orig :: rat"
    have X: "?X = 100 * v1" by (simp add: v1_def dn_def)
    have t0: "\<bar>r2 - ?X\<bar> \<le> \<bar>r2 - v2\<bar> + \<bar>v2 - 100 * v1\<bar>" unfolding X by linarith
    have "\<bar>v2\<bar> \<le> 200 * \<bar>v1\<bar>" using r1hi v2abs by simp
    then have "\<bar>v2\<bar> / 2 ^ 53 \<le> 200 * \<bar>v1\<bar> / 2 ^ 53" by (intro divide_right_mono) simp_all
    with r2(2) have t1: "\<bar>r2 - v2\<bar> \<le> 200 * \<bar>v1\<bar> / 2 ^ 53" by (rule order_trans)
    have "\<bar>v2 - 100 * v1\<bar> = 100 * \<bar>r1 - v1\<bar>" by (simp add: v2_def abs_if)
    also have "\<dots> \<le> 100 * (\<bar>v1\<bar> / 2 ^ 53)" using r1(3) by (intro mult_left_mono) simp_all
    finally have t2: "\<bar>v2 - 100 * v1\<bar> \<le> 100 * \<bar>v1\<bar> / 2 ^ 53" by simp
    have "200 * \<bar>v1\<bar> / 2 ^ 53 + 100 * \<bar>v1\<bar> / 2 ^ 53 = (300 * \<bar>of_int a\<bar> / 2 ^ 53) / dn"
      by (simp add: v1abs add_divide_distrib [symmetric])
    with t0 t1 t2 have "\<bar>r2 - ?X\<bar> \<le> (300 * \<bar>of_int a\<bar> / 2 ^ 53) / dn" by linarith
    also have "\<dots> < (1 / 2) / dn"
      using a2 dn(1) by (intro divide_strict_right_mono) simp_all
    finally have err: "\<bar>r2 - ?X\<bar> < 1 / (2 * of_nat orig)" by (simp add: dn_def)
    from nearest_on_grid [OF o(1) err k(2,3)] have "\<bar>of_int k - ?X\<bar> \<le> 1 / 2" .
    with k(1) red show ?thesis unfolding a_def [symmetric] by (intro exI [of _ k]) simp
  qed
qed

lemma round_pos_eval:
  assumes "0 < v" "pow2 e \<le> v" "v < pow2 (e + 1)"
  shows "round_pos v =
     (let q = max (e - 52) (- 1074);
          r = of_int (round_half_even (v / pow2 q)) * pow2 q
      in if 2 ^ 1024 \<le> r then PosInfinity else Num r)"
proof -
  have "floorlog_rat 2 v = e"
    using assms by (intro floorlog_rat_unique) (simp_all add: pow2_powi)
  then show ?thesis by (simp add: round_pos_def)
qed

lemma round_half_even_eval: "\<bar>x - of_int k\<bar> < 1 / 2 \<Longrightarrow> round_half_even x = k"
proof -
  assume a: "\<bar>x - of_int k\<bar> < 1 / 2"
  consider "of_int k \<le> x" | "x < of_int k" by linarith
  then show ?thesis
  proof cases
    case 1
    with a have "\<lfloor>x\<rfloor> = k" by (intro floor_unique) linarith+
    with a 1 show ?thesis by (simp add: round_half_even_def Let_def)
  next
    case 2
    have "of_int (k - 1) = (of_int k :: rat) - 1" by simp
    with a 2 have "\<lfloor>x\<rfloor> = k - 1" by (intro floor_unique) linarith+
    with a 2 show ?thesis by (simp add: round_half_even_def Let_def)
  qed
qed

lemma reduction_tie: "reduction 200 171 = Num 14"
proof -
  have n: "number_of_nat 200 = Num 200" "number_of_nat 171 = Num 171"
    using number_of_nat_exact [of 200] number_of_nat_exact [of 171] by simp_all
  have s: "js_sub (Num 200) (Num 171) = Num 29"
    using to_double_int [of 29] by (simp add: js_sub_def)
  have "round_half_even (130604389193744384 / 25) = 5224175567749775"
    by (rule round_half_even_eval) simp
  then have "round_pos (29 / 200) = Num (5224175567749775 / 36028797018963968)"
    by (subst round_pos_eval [where e = "- 3"]) (simp_all add: pow2_def Let_def)
  then have d: "js_div (Num 29) (Num 200) = Num (5224175567749775 / 36028797018963968)"
    by (simp add: js_div_def to_double_def)
  have "round_half_even (130604389193744375 / 16) = 8162774324609023"
    by (rule round_half_even_eval) simp
  then have "round_pos (5224175567749775 / 36028797018963968 * 100) = Num (8162774324609023 / 562949953421312)"
    by (subst round_pos_eval [where e = 3]) (simp_all add: pow2_def Let_def)
  then have m: "js_mul (Num (5224175567749775 / 36028797018963968)) (Num 100) = Num (8162774324609023 / 562949953421312)"
    by (simp add: js_mul_def to_double_def)
  have "\<lfloor>8162774324609023 / 562949953421312 + 1 / 2 :: rat\<rfloor> = 14"
    by (intro floor_unique) simp_all
  then show ?thesis
    by (simp add: reduction_def n s d m Let_def)
qed

section \<open>Doubles\<close>

lemma pow2_le_iff: "pow2 a \<le> pow2 b \<longleftrightarrow> a \<le> b"
proof
  assume le: "pow2 a \<le> pow2 b"
  show "a \<le> b"
  proof (rule ccontr)
    assume "\<not> a \<le> b"
    then have "(2 :: rat) powi b < 2 powi a" by (intro power_int_strict_increasing) simp_all
    with le show False by (simp add: pow2_powi)
  qed
next
  assume "a \<le> b"
  then have "(2 :: rat) powi a \<le> 2 powi b" by (intro power_int_increasing) simp_all
  then show "pow2 a \<le> pow2 b" by (simp add: pow2_powi)
qed

lemma pow2_less_iff: "pow2 a < pow2 b \<longleftrightarrow> a < b"
  using pow2_le_iff [of b a] by (auto simp: not_le [symmetric])

lemma pow2_diff: "pow2 a / pow2 b = pow2 (a - b)"
  by (simp add: pow2_powi power_int_diff)

lemma pow2_numeral: "pow2 (numeral n) = 2 ^ numeral n"
  by (simp add: pow2_def)

lemma pow10_powi: "pow10 e = 10 powi e"
  by (simp add: pow10_def power_int_def inverse_eq_divide power_one_over)

lemma pow10_pos [simp]: "0 < pow10 e"
  by (simp add: pow10_powi)

lemma pow10_add: "pow10 (a + b) = pow10 a * pow10 b"
  by (simp add: pow10_powi power_int_add)

lemma pow10_diff: "pow10 a / pow10 b = pow10 (a - b)"
  by (simp add: pow10_powi power_int_diff)

lemma pow10_le_iff: "pow10 a \<le> pow10 b \<longleftrightarrow> a \<le> b"
proof
  assume le: "pow10 a \<le> pow10 b"
  show "a \<le> b"
  proof (rule ccontr)
    assume "\<not> a \<le> b"
    then have "(10 :: rat) powi b < 10 powi a" by (intro power_int_strict_increasing) simp_all
    with le show False by (simp add: pow10_powi)
  qed
next
  assume "a \<le> b"
  then have "(10 :: rat) powi a \<le> 10 powi b" by (intro power_int_increasing) simp_all
  then show "pow10 a \<le> pow10 b" by (simp add: pow10_powi)
qed

lemma pow10_less_iff: "pow10 a < pow10 b \<longleftrightarrow> a < b"
  using pow10_le_iff [of b a] by (auto simp: not_le [symmetric])

lemma pow10_nat: "pow10 (int k) = 10 ^ k"
  by (simp add: pow10_def)

lemma pow2_nat: "pow2 (int k) = 2 ^ k"
  by (simp add: pow2_def)

lemma round_half_even_lower:
  assumes "of_int a \<le> x"
  shows "a \<le> round_half_even x"
proof -
  have "of_int a < (of_int (round_half_even x + 1) :: rat)"
    using round_half_even_error [of x] assms by (simp, linarith)
  then have "a < round_half_even x + 1" by (simp only: of_int_less_iff)
  then show ?thesis by simp
qed

lemma round_half_even_upper:
  assumes "x \<le> of_int b"
  shows "round_half_even x \<le> b"
proof -
  have "(of_int (round_half_even x) :: rat) < of_int (b + 1)"
    using round_half_even_error [of x] assms by (simp, linarith)
  then have "round_half_even x < b + 1" by (simp only: of_int_less_iff)
  then show ?thesis by simp
qed

lemma round_pos_NumE:
  assumes "round_pos v = Num r"
  obtains m q where "r = of_int m * pow2 q" "- 1074 \<le> q" "r < 2 ^ 1024"
    "q = max (floorlog_rat 2 v - 52) (- 1074)" "m = round_half_even (v / pow2 q)"
  using assms unfolding round_pos_def Let_def by (auto split: if_splits simp: not_le)

lemma round_pos_multiple:
  assumes r: "r = of_int m * pow2 q" and q: "- 1074 \<le> q" and m: "0 < m" "m \<le> 2 ^ 53"
    and hi: "r < 2 ^ 1024" and e: "floorlog_rat 2 r - 52 \<le> q \<or> m = 2 ^ 53"
  shows "round_pos r = Num r"
proof -
  define e where "e = floorlog_rat 2 r"
  have r0: "0 < r" using m r by simp
  from floorlog_rat_bounds [OF r0, of 2] have eb: "pow2 e \<le> r" "r < pow2 (e + 1)"
    by (auto simp: e_def pow2_powi)
  define q' where "q' = max (e - 52) (- 1074)"
  have "\<exists>k. r / pow2 q' = of_int k"
  proof (cases "q' \<le> q")
    case True
    have "r / pow2 q' = of_int m * (pow2 q / pow2 q')" by (simp add: r)
    also have "pow2 q / pow2 q' = pow2 (q - q')" by (rule pow2_diff)
    also have "\<dots> = 2 ^ nat (q - q')" using True by (simp add: pow2_def)
    finally have "r / pow2 q' = of_int (m * 2 ^ nat (q - q'))" by simp
    then show ?thesis by blast
  next
    case False
    with q e have m53: "m = 2 ^ 53" and "q < e - 52" by (auto simp: q'_def e_def)
    have "r = pow2 53 * pow2 q" by (simp add: r m53 pow2_def)
    then have rq: "r = pow2 (q + 53)" by (simp add: pow2_add add.commute)
    have "e = q + 53"
      unfolding e_def rq by (rule floorlog_rat_unique) (simp_all add: pow2_powi [symmetric] pow2_less_iff)
    with q have q': "q' = q + 1" by (simp add: q'_def)
    have "r / pow2 q' = pow2 52" unfolding rq q' by (simp add: pow2_diff)
    also have "\<dots> = of_int (2 ^ 52)" by (simp add: pow2_def)
    finally show ?thesis by blast
  qed
  then obtain k where k: "r / pow2 q' = of_int k" ..
  have "pow2 q' \<noteq> 0" using pow2_pos [of q'] by (simp del: pow2_pos)
  with k have "of_int k * pow2 q' = r" by (simp add: nonzero_divide_eq_eq)
  then have "of_int (round_half_even (r / pow2 q')) * pow2 q' = r"
    unfolding k round_half_even_int .
  moreover have "\<not> 2 ^ 1024 \<le> r" using hi by simp
  ultimately show ?thesis
    unfolding round_pos_def Let_def e_def [symmetric] q'_def [symmetric] by simp
qed

lemma round_pos_idem:
  assumes v: "0 < v" and r: "round_pos v = Num r" and r0: "0 < r"
  shows "round_pos r = Num r"
proof -
  define e where "e = floorlog_rat 2 v"
  from r obtain m q where rm: "r = of_int m * pow2 q" and q: "- 1074 \<le> q" and hi: "r < 2 ^ 1024"
    and qd: "q = max (e - 52) (- 1074)" and md: "m = round_half_even (v / pow2 q)"
    unfolding e_def by (rule round_pos_NumE)
  from floorlog_rat_bounds [OF v, of 2] have eb: "pow2 e \<le> v" "v < pow2 (e + 1)"
    by (auto simp: e_def pow2_powi)
  have "0 < (of_int m :: rat)" using r0 pow2_pos [of q] unfolding rm by (metis zero_less_mult_pos2)
  then have m0: "0 < m" by simp
  have "v / pow2 q < pow2 (e + 1) / pow2 q" using eb(2) by (simp add: divide_strict_right_mono)
  also have "\<dots> = pow2 (e + 1 - q)" by (simp add: pow2_diff)
  also have "\<dots> \<le> pow2 53" unfolding pow2_le_iff using qd by simp
  also have "\<dots> = of_int (2 ^ 53)" by (simp add: pow2_def)
  finally have "v / pow2 q \<le> of_int (2 ^ 53)" by simp
  then have m53: "m \<le> 2 ^ 53" unfolding md by (rule round_half_even_upper)
  define er where "er = floorlog_rat 2 r"
  from floorlog_rat_bounds [OF r0, of 2] have erb: "pow2 er \<le> r" "r < pow2 (er + 1)"
    by (auto simp: er_def pow2_powi)
  have "er - 52 \<le> q \<or> m = 2 ^ 53"
  proof (cases "m = 2 ^ 53")
    case False
    with m53 have "m < 2 ^ 53" by simp
    then have "(of_int m :: rat) < of_int (2 ^ 53)" by (simp only: of_int_less_iff)
    then have "(of_int m :: rat) < pow2 53" by (simp add: pow2_def)
    then have "r < pow2 53 * pow2 q" unfolding rm by (simp add: mult_strict_right_mono)
    then have "r < pow2 (53 + q)" by (simp add: pow2_add)
    with erb(1) have "pow2 er < pow2 (53 + q)" by simp
    then show ?thesis by (simp add: pow2_less_iff)
  qed simp
  with rm q m0 m53 hi show ?thesis unfolding er_def by (intro round_pos_multiple [of r m q]) auto
qed

lemma round_pos_nonneg: "0 < v \<Longrightarrow> round_pos v = Num r \<Longrightarrow> 0 \<le> r"
proof -
  assume v: "0 < v" and r: "round_pos v = Num r"
  from r obtain m q where rm: "r = of_int m * pow2 q" and md: "m = round_half_even (v / pow2 q)"
    by (rule round_pos_NumE)
  have "of_int 0 \<le> v / pow2 q" using v by simp
  then have "0 \<le> m" unfolding md by (rule round_half_even_lower)
  then show ?thesis by (simp add: rm)
qed

lemma round_pos_overflow:
  assumes "2 ^ 1024 \<le> v"
  shows "round_pos v = PosInfinity"
proof -
  define e where "e = floorlog_rat 2 v"
  have v: "0 < v" using assms by (rule less_le_trans [rotated]) simp
  from floorlog_rat_bounds [OF v, of 2] have eb: "pow2 e \<le> v" "v < pow2 (e + 1)"
    by (auto simp: e_def pow2_powi)
  have "pow2 1024 \<le> v" using assms by (simp add: pow2_def)
  with eb(2) have "pow2 1024 < pow2 (e + 1)" by simp
  then have e: "1024 \<le> e" by (simp add: pow2_less_iff)
  then have q: "max (e - 52) (- 1074) = e - 52" by simp
  have "pow2 e / pow2 (e - 52) = pow2 52" by (simp add: pow2_diff)
  then have "of_int (2 ^ 52) = pow2 e / pow2 (e - 52)" by (simp add: pow2_def)
  also have "\<dots> \<le> v / pow2 (e - 52)" using eb(1) by (simp add: divide_right_mono)
  finally have "2 ^ 52 \<le> round_half_even (v / pow2 (e - 52))" by (rule round_half_even_lower)
  then have "(of_int (2 ^ 52) :: rat) \<le> of_int (round_half_even (v / pow2 (e - 52)))"
    by (simp only: of_int_le_iff)
  then have "pow2 52 * pow2 (e - 52) \<le> of_int (round_half_even (v / pow2 (e - 52))) * pow2 (e - 52)"
    by (intro mult_right_mono) (simp_all add: pow2_def)
  then have "pow2 e \<le> of_int (round_half_even (v / pow2 (e - 52))) * pow2 (e - 52)"
    by (simp add: pow2_add [symmetric])
  moreover have "pow2 1024 \<le> pow2 e" using e by (simp add: pow2_le_iff)
  ultimately have "2 ^ 1024 \<le> of_int (round_half_even (v / pow2 (e - 52))) * pow2 (e - 52)"
    by (simp add: pow2_def)
  then show ?thesis
    unfolding round_pos_def Let_def e_def [symmetric] q by simp
qed

section \<open>Decimal digits\<close>

declare dec_digits.simps [simp del]

lemma digit_char: "d < 10 \<Longrightarrow> unat (0x30 + of_nat d :: cu) = 0x30 + d"
  by (simp add: unat_word_ariths unat_of_nat)

lemma isDigit_digit_char: "d < 10 \<Longrightarrow> isDigit (0x30 + of_nat d)"
  using digit_char [of d] by (simp add: isDigit_def word_le_nat_alt)

lemma dec_digits_digits: "list_all isDigit (dec_digits n)"
proof (induction n rule: dec_digits.induct)
  case (1 n)
  show ?case
  proof (cases "n < 10")
    case True
    then show ?thesis by (subst dec_digits.simps) (simp add: isDigit_digit_char)
  next
    case False
    with 1 show ?thesis by (subst dec_digits.simps) (simp add: isDigit_digit_char)
  qed
qed

lemma dec_digits_nonempty: "dec_digits n \<noteq> []"
  by (subst dec_digits.simps) simp

lemma digits_value_snoc: "digits_value (ds @ [c]) = 10 * digits_value ds + (unat c - 0x30)"
  by (simp add: digits_value_def)

lemma digits_value_Nil: "digits_value [] = 0"
  by (simp add: digits_value_def)

lemma digits_value_dec_digits: "digits_value (dec_digits n) = n"
proof (induction n rule: dec_digits.induct)
  case (1 n)
  show ?case
  proof (cases "n < 10")
    case True
    then show ?thesis
      using digit_char [of n] by (subst dec_digits.simps) (simp add: digits_value_def)
  next
    case False
    with 1 show ?thesis
      using digit_char [of "n mod 10"]
      by (subst dec_digits.simps) (simp add: digits_value_snoc)
  qed
qed

lemma hd_dec_digits: "0 < n \<Longrightarrow> hd (dec_digits n) \<noteq> 0x30"
proof (induction n rule: dec_digits.induct)
  case (1 n)
  show ?case
  proof (cases "n < 10")
    case True
    have "unat (0x30 + of_nat n :: cu) \<noteq> unat (0x30 :: cu)"
      using digit_char [of n] True 1(2) by simp
    then have "(0x30 + of_nat n :: cu) \<noteq> 0x30" by metis
    with True show ?thesis by (subst dec_digits.simps) simp
  next
    case False
    then have "0 < n div 10" by simp
    with 1 False have "hd (dec_digits (n div 10)) \<noteq> 0x30" by simp
    with False show ?thesis
      using dec_digits_nonempty [of "n div 10"] by (subst dec_digits.simps) simp
  qed
qed

lemma length_dec_digits:
  "n < 10 ^ Suc k \<Longrightarrow> k = 0 \<or> 10 ^ k \<le> n \<Longrightarrow> length (dec_digits n) = Suc k"
proof (induction k arbitrary: n)
  case 0
  then show ?case by (subst dec_digits.simps) simp
next
  case (Suc k)
  from Suc.prems have n: "10 * 10 ^ k \<le> n" "n < 10 * (10 * 10 ^ k)" by simp_all
  have k1: "(1 :: nat) \<le> 10 ^ k" by simp
  with n have n10: "\<not> n < 10" by linarith
  from n have "n div 10 < 10 ^ Suc k" "10 ^ k \<le> n div 10" by simp_all
  then have "length (dec_digits (n div 10)) = Suc k" by (intro Suc.IH) simp_all
  with n10 show ?case by (subst dec_digits.simps) simp
qed

lemma digits_value_append:
  "digits_value (a @ b) = digits_value a * 10 ^ length b + digits_value b"
proof (induction b rule: rev_induct)
  case Nil
  show ?case by (simp add: digits_value_Nil)
next
  case (snoc c b)
  have "digits_value (a @ b @ [c]) = 10 * digits_value (a @ b) + (unat c - 0x30)"
    using digits_value_snoc [of "a @ b" c] by simp
  with snoc show ?case by (simp add: digits_value_snoc algebra_simps)
qed

lemma digits_value_zeros: "digits_value (replicate m 0x30) = 0"
  by (induction m) (simp_all add: digits_value_Nil digits_value_snoc replicate_append_same [symmetric])

lemma isDigit_zero: "isDigit 0x30"
  by (simp add: isDigit_def)

lemma digits_run:
  assumes "list_all isDigit ds" "rs = [] \<or> \<not> isDigit (hd rs)"
  shows "takeWhile isDigit (ds @ rs) = ds" "dropWhile isDigit (ds @ rs) = rs"
proof -
  have t: "takeWhile isDigit rs = []" "dropWhile isDigit rs = rs"
    using assms(2) by (cases rs; simp)+
  from assms(1) show "takeWhile isDigit (ds @ rs) = ds"
    by (simp add: takeWhile_append2 list_all_iff t)
  from assms(1) show "dropWhile isDigit (ds @ rs) = rs"
    by (simp add: dropWhile_append2 list_all_iff t)
qed

lemma parse_int_part_run:
  assumes "list_all isDigit ip" "ip \<noteq> []" "hd ip \<noteq> 0x30 \<or> ip = [0x30]"
    and "rs = [] \<or> \<not> isDigit (hd rs)"
  shows "parse_int_part (ip @ rs) = Some (ip, rs)"
proof (cases "ip = [0x30]")
  case True
  then show ?thesis by (simp add: parse_int_part_def)
next
  case False
  with assms obtain c cs where ip: "ip = c # cs" "c \<noteq> 0x30" "isDigit c" by (cases ip) auto
  from digits_run [OF assms(1,4)] show ?thesis
    using ip by (simp add: parse_int_part_def)
qed

lemma parse_frac_part_none:
  "rs = [] \<or> hd rs \<noteq> 0x2E \<Longrightarrow> parse_frac_part rs = Some ([], rs)"
  by (cases rs) (simp_all add: parse_frac_part_def)

lemma parse_frac_part_run:
  assumes "list_all isDigit fp" "fp \<noteq> []" "rs = [] \<or> \<not> isDigit (hd rs)"
  shows "parse_frac_part (0x2E # fp @ rs) = Some (fp, rs)"
  using digits_run [OF assms(1,3)] assms(2) by (simp add: parse_frac_part_def)

lemma parse_exp_part_none:
  "rs = [] \<or> hd rs \<noteq> 0x65 \<and> hd rs \<noteq> 0x45 \<Longrightarrow> parse_exp_part rs = Some (0, rs)"
  by (cases rs) (simp_all add: parse_exp_part_def)

lemma parse_exp_part_run:
  assumes "list_all isDigit ed" "ed \<noteq> []" "rs = [] \<or> \<not> isDigit (hd rs)"
    and "sg = 0x2B \<or> sg = 0x2D"
  shows "parse_exp_part (0x65 # sg # ed @ rs) =
     Some (if sg = 0x2D then - int (digits_value ed) else int (digits_value ed), rs)"
  using digits_run [OF assms(1,3)] assms(2,4)
  by (auto simp: parse_exp_part_def parse_exp_digits_def)

lemma delim_facts:
  assumes "delim r"
  shows "r = [] \<or> \<not> isDigit (hd r)" "r = [] \<or> hd r \<noteq> 0x2E"
    "r = [] \<or> hd r \<noteq> 0x65 \<and> hd r \<noteq> 0x45" "skip_ws r = r"
  using assms by (cases r; auto simp: delim_def isDigit_def skip_ws_def isJsonWs_def)+

lemma pow10_neg_length: "pow10 (- int m) = 1 / 10 ^ m"
  by (simp add: pow10_def)

lemma digits_zeros: "list_all isDigit (replicate m 0x30)"
  by (induction m) (simp_all add: isDigit_zero)

lemma parse_unsigned_format_digits:
  assumes s: "0 < s" and r: "delim r"
  shows "parse_unsigned (format_digits (n, s) @ r) =
     Some (of_nat s * pow10 (n - int (length (dec_digits s))), r)"
proof -
  define ds where "ds = dec_digits s"
  define k where "k = int (length ds)"
  have dd: "list_all isDigit ds" and dn: "ds \<noteq> []" and dv: "digits_value ds = s"
    and dh: "hd ds \<noteq> 0x30"
    using s by (simp_all add: ds_def dec_digits_digits dec_digits_nonempty
      digits_value_dec_digits hd_dec_digits)
  have k1: "1 \<le> k" using dn by (cases ds) (simp_all add: k_def)
  note rf = delim_facts [OF r]
  consider (a) "k \<le> n" "n \<le> 21" | (b) "0 < n" "n < k" "n \<le> 21" | (c) "- 6 < n" "n \<le> 0"
    | (d) "21 < n \<or> n \<le> - 6" by linarith
  then show ?thesis
  proof cases
    case a
    define ip where "ip = ds @ replicate (nat (n - k)) 0x30"
    have f: "format_digits (n, s) = ip"
      using a by (simp add: format_digits_def ds_def [symmetric] k_def [symmetric] ip_def)
    have "parse_int_part (ip @ r) = Some (ip, r)"
      using dd dn dh rf(1) by (intro parse_int_part_run) (simp_all add: ip_def digits_zeros)
    moreover have "digits_value ip = s * 10 ^ nat (n - k)"
      by (simp add: ip_def digits_value_append digits_value_zeros dv)
    moreover have "pow10 (n - k) = 10 ^ nat (n - k)" using a by (simp add: pow10_def)
    ultimately show ?thesis
      unfolding f ds_def [symmetric] k_def [symmetric]
      by (simp add: parse_unsigned_def parse_frac_part_none [OF rf(2)]
        parse_exp_part_none [OF rf(3)] pow10_def)
  next
    case b
    define ip where "ip = take (nat n) ds"
    define fp where "fp = drop (nat n) ds"
    have f: "format_digits (n, s) @ r = ip @ 0x2E # fp @ r"
      using b by (simp add: format_digits_def ds_def [symmetric] k_def [symmetric] ip_def fp_def)
    have ipn: "ip \<noteq> []" using b dn by (simp add: ip_def)
    have "hd ip = hd ds" using b dn by (cases ds) (simp_all add: ip_def take_Cons')
    then have 1: "parse_int_part (ip @ 0x2E # fp @ r) = Some (ip, 0x2E # fp @ r)"
      using dd dh ipn by (intro parse_int_part_run)
        (auto simp: ip_def isDigit_def list_all_iff dest: in_set_takeD)
    have fpn: "fp \<noteq> []" using b by (simp add: fp_def k_def)
    have 2: "parse_frac_part (0x2E # fp @ r) = Some (fp, r)"
      using dd fpn rf(1) by (intro parse_frac_part_run)
        (auto simp: fp_def list_all_iff dest: in_set_dropD)
    have 3: "ip @ fp = ds" by (simp add: ip_def fp_def)
    have "int (length fp) = k - n" using b by (simp add: fp_def k_def)
    then have 4: "- int (length fp) = n - k" by simp
    show ?thesis
      unfolding f ds_def [symmetric] k_def [symmetric]
      by (simp add: parse_unsigned_def 1 2 3 4 dv parse_exp_part_none [OF rf(3)])
  next
    case c
    define fp where "fp = replicate (nat (- n)) 0x30 @ ds"
    have f: "format_digits (n, s) @ r = 0x30 # 0x2E # fp @ r"
      using c k1 by (simp add: format_digits_def ds_def [symmetric] k_def [symmetric] fp_def)
    have 1: "parse_int_part (0x30 # 0x2E # fp @ r) = Some ([0x30], 0x2E # fp @ r)"
      using parse_int_part_run [of "[0x30]" "0x2E # fp @ r"] by (simp add: isDigit_def)
    have 2: "parse_frac_part (0x2E # fp @ r) = Some (fp, r)"
      using dd dn rf(1) by (intro parse_frac_part_run) (simp_all add: fp_def digits_zeros)
    have 3: "digits_value (0x30 # fp) = s"
      using digits_value_append [of "0x30 # replicate (nat (- n)) 0x30" ds]
        digits_value_zeros [of "Suc (nat (- n))"] by (simp add: fp_def dv)
    have "int (length fp) = k - n" using c by (simp add: fp_def k_def)
    then have 4: "- int (length fp) = n - k" by simp
    show ?thesis
      unfolding f ds_def [symmetric] k_def [symmetric]
      by (simp add: parse_unsigned_def 1 2 3 4 parse_exp_part_none [OF rf(3)])
  next
    case d
    define sg :: cu where "sg = (if 0 \<le> n - 1 then 0x2B else 0x2D)"
    define ed where "ed = dec_digits (nat \<bar>n - 1\<bar>)"
    have sg: "sg = 0x2B \<or> sg = 0x2D" by (simp add: sg_def)
    have e: "(if sg = 0x2D then - int (digits_value ed) else int (digits_value ed)) = n - 1"
      by (simp add: sg_def ed_def digits_value_dec_digits)
    have 5: "parse_exp_part (0x65 # sg # ed @ r) = Some (n - 1, r)"
      using parse_exp_part_run [OF _ _ rf(1) sg, of ed]
      by (simp add: e) (simp add: ed_def dec_digits_digits dec_digits_nonempty)
    show ?thesis
    proof (cases "k = 1")
      case True
      have f: "format_digits (n, s) @ r = ds @ 0x65 # sg # ed @ r"
        using d True k1
        by (auto simp: format_digits_def ds_def [symmetric] k_def [symmetric] sg_def ed_def)
      have 1: "parse_int_part (ds @ 0x65 # sg # ed @ r) = Some (ds, 0x65 # sg # ed @ r)"
        using dd dn dh by (intro parse_int_part_run) (simp_all add: isDigit_def)
      have 2: "parse_frac_part (0x65 # sg # ed @ r) = Some ([], 0x65 # sg # ed @ r)"
        by (intro parse_frac_part_none) simp
      show ?thesis
        unfolding f ds_def [symmetric] k_def [symmetric]
        by (simp add: parse_unsigned_def 1 2 5 dv True)
    next
      case False
      define ip where "ip = take 1 ds"
      define fp where "fp = drop 1 ds"
      have f: "format_digits (n, s) @ r = ip @ 0x2E # fp @ 0x65 # sg # ed @ r"
        using d False k1
        by (auto simp: format_digits_def ds_def [symmetric] k_def [symmetric] sg_def ed_def
          ip_def fp_def)
      have ip: "ip = [hd ds]" using dn by (cases ds) (simp_all add: ip_def)
      have 1: "parse_int_part (ip @ 0x2E # fp @ 0x65 # sg # ed @ r)
          = Some (ip, 0x2E # fp @ 0x65 # sg # ed @ r)"
        using dd dn dh by (intro parse_int_part_run)
          (auto simp: ip isDigit_def list_all_iff)
      have fpn: "fp \<noteq> []" using False k1 by (simp add: fp_def k_def)
      have 2: "parse_frac_part (0x2E # fp @ 0x65 # sg # ed @ r) = Some (fp, 0x65 # sg # ed @ r)"
        using dd fpn by (intro parse_frac_part_run)
          (auto simp: fp_def list_all_iff isDigit_def dest: in_set_dropD)
      have 3: "ip @ fp = ds" by (simp add: ip_def fp_def)
      have "int (length fp) = k - 1" using k1 by (simp add: fp_def k_def)
      then have 4: "n - 1 - int (length fp) = n - k" by simp
      show ?thesis
        unfolding f ds_def [symmetric] k_def [symmetric]
        by (simp add: parse_unsigned_def 1 2 3 4 5 dv)
    qed
  qed
qed

lemma pow10_nonneg [simp]: "0 \<le> pow10 e"
  using pow10_pos [of e] by (simp del: pow10_pos)

lemma digit_candidates_range:
  assumes x: "0 < x" and k: "0 < k" and c: "c \<in> set (digit_candidates x k)"
  shows "10 ^ (k - 1) \<le> snd c \<and> snd c < 10 ^ k"
proof -
  define n where "n = floorlog_rat 10 x + 1"
  define y where "y = x / pow10 (n - int k)"
  define lo where "lo = nat \<lfloor>y\<rfloor>"
  from floorlog_rat_bounds [OF x, of 10] have nb: "pow10 (n - 1) \<le> x" "x < pow10 n"
    by (auto simp: n_def pow10_powi)
  have "pow10 (n - 1) / pow10 (n - int k) \<le> y"
    unfolding y_def using nb(1) by (simp add: divide_right_mono)
  then have "pow10 (int k - 1) \<le> y" by (simp add: pow10_diff)
  moreover have "pow10 (int k - 1) = of_int (10 ^ (k - 1))"
    using k by (simp add: pow10_def nat_diff_distrib)
  ultimately have "of_int (10 ^ (k - 1)) \<le> y" by simp
  then have l1: "10 ^ (k - 1) \<le> \<lfloor>y\<rfloor>" by (simp only: le_floor_iff)
  have "y < pow10 n / pow10 (n - int k)"
    unfolding y_def using nb(2) by (simp add: divide_strict_right_mono)
  then have "y < pow10 (int k)" by (simp add: pow10_diff)
  then have "y < of_int (10 ^ k)" by (simp add: pow10_nat)
  then have l2: "\<lfloor>y\<rfloor> < 10 ^ k" by (simp only: floor_less_iff)
  have f0: "0 \<le> \<lfloor>y\<rfloor>" using l1 by (rule order_trans [rotated]) simp
  then have "int (10 ^ (k - 1)) \<le> int lo" using l1 by (simp add: lo_def)
  then have lo1: "10 ^ (k - 1) \<le> lo" by (simp only: of_nat_le_iff)
  from f0 have "int lo < int (10 ^ k)" using l2 by (simp add: lo_def)
  then have lo2: "lo < 10 ^ k" by (simp only: of_nat_less_iff)
  have kk: "(10 :: nat) ^ (k - 1) < 10 ^ k" using k by (cases k) simp_all
  have "digit_candidates x k =
      [(n, lo), if lo + 1 = 10 ^ k then (n + 1, 10 ^ (k - 1)) else (n, lo + 1)]"
    by (simp add: digit_candidates_def Let_def n_def y_def lo_def)
  with c have "c = (n, lo) \<or> c = (if lo + 1 = 10 ^ k then (n + 1, 10 ^ (k - 1)) else (n, lo + 1))"
    by simp
  with lo1 lo2 kk show ?thesis by (auto split: if_splits)
qed

lemma closer_cases: "closer x k c1 c2 = c1 \<or> closer x k c1 c2 = c2"
  by (simp add: closer_def Let_def)

lemma shortest_digits_valid:
  assumes "k \<le> k0" "k0 < k + fuel" "\<exists>c\<in>set (digit_candidates x k0). digits_valid x k0 c"
  shows "\<exists>k'. k \<le> k' \<and> shortest_digits fuel k x \<in> set (digit_candidates x k') \<and>
    digits_valid x k' (shortest_digits fuel k x)"
  using assms
proof (induction fuel arbitrary: k)
  case 0
  then show ?case by simp
next
  case (Suc fuel)
  define vs where "vs = filter (digits_valid x k) (digit_candidates x k)"
  show ?case
  proof (cases vs)
    case Nil
    have "k \<noteq> k0"
    proof
      assume "k = k0"
      with Suc.prems(3) have "vs \<noteq> []" by (auto simp: vs_def filter_empty_conv)
      with Nil show False by simp
    qed
    with Suc.prems have "Suc k \<le> k0" "k0 < Suc k + fuel" by simp_all
    from Suc.IH [OF this Suc.prems(3)] obtain k' where
      "Suc k \<le> k'" "shortest_digits fuel (Suc k) x \<in> set (digit_candidates x k')"
      "digits_valid x k' (shortest_digits fuel (Suc k) x)" by blast
    moreover have "shortest_digits (Suc fuel) k x = shortest_digits fuel (Suc k) x"
      using Nil by (simp add: vs_def)
    ultimately show ?thesis by (intro exI [of _ k']) simp
  next
    case (Cons c1 rest)
    have "shortest_digits (Suc fuel) k x \<in> set vs"
    proof (cases rest)
      case Nil
      with Cons show ?thesis by (simp add: vs_def [symmetric])
    next
      case (Cons c2 rest')
      with \<open>vs = c1 # rest\<close> show ?thesis
        using closer_cases [of x k c1 c2] by (auto simp: vs_def [symmetric])
    qed
    then show ?thesis by (intro exI [of _ k]) (simp add: vs_def)
  qed
qed

lemma exact_scaling:
  assumes "x = of_int m * pow2 q" "- int N \<le> q"
  shows "x / pow10 (- int N) = of_int (m * 2 ^ nat (q + int N) * 5 ^ N)"
proof -
  have "pow2 q * 2 ^ N = pow2 q * pow2 (int N)" by (simp add: pow2_nat)
  also have "\<dots> = pow2 (q + int N)" by (simp add: pow2_add)
  also have "\<dots> = 2 ^ nat (q + int N)" using assms(2) by (simp add: pow2_def)
  finally have 1: "pow2 q * 2 ^ N = 2 ^ nat (q + int N)" .
  have "(10 :: rat) ^ N = 2 ^ N * 5 ^ N" using power_mult_distrib [of "2 :: rat" 5 N] by simp
  then have "x / pow10 (- int N) = of_int m * (pow2 q * 2 ^ N) * 5 ^ N"
    by (simp add: pow10_neg_length assms(1))
  then show ?thesis by (simp add: 1)
qed

lemma pos_double_exact_digits:
  assumes "pos_double x"
  shows "\<exists>k0. 0 < k0 \<and> k0 < 1400 \<and> (\<exists>c\<in>set (digit_candidates x k0). digits_valid x k0 c)"
proof -
  from assms have x: "0 < x" and rx: "round_pos x = Num x" by (simp_all add: pos_double_def)
  from rx obtain m q where xm: "x = of_int m * pow2 q" and q: "- 1074 \<le> q"
    and hi: "x < 2 ^ 1024" by (rule round_pos_NumE)
  have "0 < (of_int m :: rat)" using x pow2_pos [of q] unfolding xm by (metis zero_less_mult_pos2)
  then have "1 \<le> m" by simp
  then have "(of_int 1 :: rat) \<le> of_int m" by (simp only: of_int_le_iff)
  then have "1 * pow2 q \<le> x" unfolding xm by (intro mult_right_mono) simp_all
  moreover have "pow2 (- 1074) \<le> pow2 q" using q by (simp add: pow2_le_iff)
  ultimately have lo: "pow2 (- 1074) \<le> x" by simp
  define n where "n = floorlog_rat 10 x + 1"
  from floorlog_rat_bounds [OF x, of 10] have nb: "pow10 (n - 1) \<le> x" "x < pow10 n"
    by (auto simp: n_def pow10_powi)
  have "pow10 (- 324) \<le> pow2 (- 1074)" by (simp add: pow10_def pow2_def)
  with lo nb(2) have "pow10 (- 324) < pow10 n" by simp
  then have n1: "- 324 < n" by (simp add: pow10_less_iff)
  have "(2 :: rat) ^ 1024 \<le> pow10 309" by (simp add: pow10_def)
  with hi nb(1) have "pow10 (n - 1) < pow10 309" by simp
  then have n2: "n \<le> 309" by (simp add: pow10_less_iff)
  define k0 where "k0 = nat (n + 1074)"
  have k0: "n - int k0 = - int 1074" "0 < k0" "k0 < 1400" using n1 n2 by (simp_all add: k0_def)
  define Y where "Y = m * 2 ^ nat (q + int 1074) * 5 ^ 1074"
  have y: "x / pow10 (n - int k0) = of_int Y"
    unfolding k0(1) Y_def using xm q by (intro exact_scaling) simp_all
  have "0 < x / pow10 (n - int k0)" using x by simp
  then have Y0: "0 < Y" unfolding y by simp
  have p: "pow10 (n - int k0) \<noteq> 0" using pow10_pos [of "n - int k0"] by (simp del: pow10_pos)
  have "of_int Y * pow10 (n - int k0) = x" using y p by (simp add: nonzero_divide_eq_eq)
  then have "digits_value_at k0 (n, nat Y) = x" using Y0 by (simp add: digits_value_at_def)
  moreover have "to_double x = Num x" using x rx by (simp add: to_double_def)
  ultimately have "digits_valid x k0 (n, nat Y)" by (simp add: digits_valid_def)
  moreover have "(n, nat Y) \<in> set (digit_candidates x k0)"
    by (simp add: digit_candidates_def Let_def n_def [symmetric] y)
  ultimately show ?thesis using k0 by blast
qed

lemma number_digits_valid:
  assumes "pos_double x"
  obtains n s where "number_digits x = (n, s)" "0 < s"
    "to_double (of_nat s * pow10 (n - int (length (dec_digits s)))) = Num x"
proof -
  from assms have x: "0 < x" by (simp add: pos_double_def)
  from pos_double_exact_digits [OF assms] obtain k0 where
    k0: "0 < k0" "k0 < 1400" "\<exists>c\<in>set (digit_candidates x k0). digits_valid x k0 c" by blast
  define c where "c = number_digits x"
  from shortest_digits_valid [of 1 k0 1400 x] k0 obtain k' where
    k': "1 \<le> k'" "c \<in> set (digit_candidates x k')" "digits_valid x k' c"
    unfolding c_def number_digits_def by auto
  from digit_candidates_range [OF x _ k'(2)] k'(1)
  have rg: "10 ^ (k' - 1) \<le> snd c" "snd c < 10 ^ k'" by simp_all
  have "length (dec_digits (snd c)) = Suc (k' - 1)"
    using rg k'(1) by (intro length_dec_digits) simp_all
  then have len: "int (length (dec_digits (snd c))) = int k'" using k'(1) by simp
  have "(0 :: nat) < 10 ^ (k' - 1)" by simp
  with rg(1) have s0: "0 < snd c" by linarith
  from k'(3) have "to_double (of_nat (snd c) * pow10 (fst c - int k')) = Num x"
    by (simp add: digits_valid_def digits_value_at_def)
  with len s0 show ?thesis by (intro that [of "fst c" "snd c"]) (simp_all add: c_def)
qed

section \<open>Numbers written and read\<close>

lemma parse_unsigned_hd:
  "parse_unsigned t = Some p \<Longrightarrow> \<exists>c cs. t = c # cs \<and> isDigit c"
  by (cases t) (auto simp: parse_unsigned_def parse_int_part_def isDigit_def
      split: if_splits option.splits)

lemma format_digits_hd:
  assumes "0 < s"
  shows "\<exists>c cs. format_digits (n, s) = c # cs \<and> isDigit c"
  using parse_unsigned_format_digits [OF assms, of "[]" n] parse_unsigned_hd
  by (fastforce simp: delim_def)

lemma parse_number_format_digits:
  assumes "0 < s" "delim r"
  shows "parse_number (format_digits (n, s) @ r) =
    Some (to_double (of_nat s * pow10 (n - int (length (dec_digits s)))), r)"
proof -
  from format_digits_hd [OF assms(1), of n] obtain c cs where
    f: "format_digits (n, s) = c # cs" "isDigit c" by blast
  then have "c \<noteq> 0x2D" by (auto simp: isDigit_def)
  with parse_unsigned_format_digits [OF assms, of n] f(1) show ?thesis
    by (simp add: parse_number_def)
qed

lemma parse_number_toString:
  assumes "x \<noteq> 0" "pos_double \<bar>x\<bar>" "delim r"
  shows "parse_number (Number_toString (Num x) @ r) = Some (Num x, r)"
proof (cases "0 < x")
  case True
  with assms(2) have "pos_double x" by simp
  then obtain n s where d: "number_digits x = (n, s)" "0 < s"
    "to_double (of_nat s * pow10 (n - int (length (dec_digits s)))) = Num x"
    by (rule number_digits_valid)
  with True assms(3) show ?thesis by (simp add: parse_number_format_digits)
next
  case False
  with assms(1) have x: "x < 0" by simp
  with assms(2) have "pos_double (- x)" by simp
  then obtain n s where d: "number_digits (- x) = (n, s)" "0 < s"
    "to_double (of_nat s * pow10 (n - int (length (dec_digits s)))) = Num (- x)"
    by (rule number_digits_valid)
  with x assms(3) parse_unsigned_format_digits [OF d(2) assms(3), of n] show ?thesis
    by (simp add: parse_number_def)
qed

lemma parse_number_zero: "delim r \<Longrightarrow> parse_number (0x30 # r) = Some (Num 0, r)"
  using delim_facts [of r]
  by (simp add: parse_number_def parse_unsigned_def parse_int_part_def parse_frac_part_none
    parse_exp_part_none digits_value_def to_double_def)

lemma Number_toString_hd:
  assumes "double_number n" "\<not> is_infinite n"
  shows "\<exists>c cs. Number_toString n = c # cs \<and> (isDigit c \<or> c = 0x2D)"
proof (cases n)
  case (Num x)
  show ?thesis
  proof (cases "0 < x")
    case True
    with assms Num have "pos_double x" by (simp add: double_number_def)
    then obtain k s where "number_digits x = (k, s)" "0 < s" by (rule number_digits_valid)
    with format_digits_hd [of s k] Num True show ?thesis by auto
  qed (simp add: Num js_def isDigit_def)
qed (use assms in \<open>simp_all add: js_def isDigit_def double_number_def\<close>)

lemma double_number_negate: "double_number n \<Longrightarrow> double_number (js_negate n)"
  by (cases n) (auto simp: double_number_def)

lemma double_number_round_pos: "0 < v \<Longrightarrow> double_number (round_pos v)"
proof (cases "round_pos v")
  case (Num r)
  assume v: "0 < v"
  from round_pos_nonneg [OF v Num] have "r = 0 \<or> 0 < r" by auto
  with round_pos_idem [OF v Num] show "double_number (round_pos v)"
    by (auto simp: Num double_number_def pos_double_def)
qed (auto simp: double_number_def round_pos_def Let_def split: if_splits)

lemma double_number_to_double: "double_number (to_double v)"
  by (simp add: to_double_def double_number_negate double_number_round_pos)
    (simp add: double_number_def)

lemma parse_number_double: "parse_number s = Some (n, r) \<Longrightarrow> double_number n"
  by (cases s) (auto simp: parse_number_def double_number_to_double double_number_negate
      split: if_splits)

lemma hex_value_hex_digit: "n < 16 \<Longrightarrow> hex_value (hex_digit n) = Some n"
proof (cases "n < 10")
  case True
  then show ?thesis
    using digit_char [of n] by (simp add: hex_digit_def hex_value_def word_le_nat_alt)
next
  case False
  assume "n < 16"
  with False have "unat (0x61 + of_nat (n - 10) :: cu) = 0x61 + (n - 10)"
    by (simp add: unat_word_ariths unat_of_nat)
  with False \<open>n < 16\<close> show ?thesis
    by (simp add: hex_digit_def hex_value_def word_le_nat_alt)
qed

lemma hex_recombine:
  fixes u :: nat
  shows "((u div 0x1000 * 16 + u div 0x100 mod 0x10) * 16 + u div 0x10 mod 0x10) * 16 + u mod 0x10 = u"
proof -
  have 1: "u div 0x100 = u div 0x10 div 0x10" "u div 0x1000 = u div 0x100 div 0x10"
    by (simp_all add: div_mult2_eq [symmetric])
  have "u div 0x1000 * 16 + u div 0x100 mod 0x10 = u div 0x100" unfolding 1(2) by simp
  moreover have "u div 0x100 * 16 + u div 0x10 mod 0x10 = u div 0x10" unfolding 1(1) by simp
  moreover have "u div 0x10 * 16 + u mod 0x10 = u" by simp
  ultimately show ?thesis by (simp only:)
qed

lemma parse_unicode_escape:
  "parse_string_body (unicode_escape c @ t) = cons_fst c (parse_string_body t)"
proof -
  have u: "unat c < 65536" using unsigned_less [of c, where ?'a = nat] by simp
  then have h: "unat c div 0x1000 < 16" "unat c div 0x100 mod 0x10 < 16"
    "unat c div 0x10 mod 0x10 < 16" "unat c mod 0x10 < 16" by simp_all
  have "(of_nat (((unat c div 0x1000 * 16 + unat c div 0x100 mod 0x10) * 16
      + unat c div 0x10 mod 0x10) * 16 + unat c mod 0x10) :: cu) = c"
    by (simp only: hex_recombine) simp
  with h show ?thesis
    by (simp add: unicode_escape_def hex_value_hex_digit)
qed

section \<open>Strings written and read\<close>

lemma surrogate_plain:
  assumes "isHighSurrogate c \<or> isLowSurrogate c"
  shows "c \<noteq> 0x08" "c \<noteq> 0x09" "c \<noteq> 0x0A" "c \<noteq> 0x0C" "c \<noteq> 0x0D" "c \<noteq> 0x22" "c \<noteq> 0x5C"
    "\<not> c < 0x20"
  using assms by (auto simp: isHighSurrogate_def isLowSurrogate_def word_le_nat_alt word_less_nat_alt)

lemma parse_plain_char:
  "c \<noteq> 0x22 \<Longrightarrow> c \<noteq> 0x5C \<Longrightarrow> \<not> c < 0x20 \<Longrightarrow>
   parse_string_body (c # t) = cons_fst c (parse_string_body t)"
  by simp

lemma parse_string_quote: "parse_string_body (quote_chars s @ 0x22 # r) = Some (s, r)"
proof (induction "length s" arbitrary: s rule: less_induct)
  case less
  show ?case
  proof (cases s)
    case Nil
    then show ?thesis by simp
  next
    case (Cons c cs)
    have ih: "parse_string_body (quote_chars cs @ 0x22 # r) = Some (cs, r)"
      using less [of cs] Cons by simp
    define esc where "esc \<longleftrightarrow> c = 0x08 \<or> c = 0x09 \<or> c = 0x0A \<or> c = 0x0C \<or> c = 0x0D \<or> c = 0x22 \<or> c = 0x5C"
    define pair where "pair \<longleftrightarrow> isHighSurrogate c \<and> cs \<noteq> [] \<and> isLowSurrogate (hd cs)"
    consider (esc) esc
      | (pair) "\<not> esc" "\<not> c < 0x20" pair
      | (uni) "\<not> esc" "\<not> pair" "c < 0x20 \<or> isHighSurrogate c \<or> isLowSurrogate c"
      | (plain) "\<not> esc" "\<not> c < 0x20" "\<not> isHighSurrogate c" "\<not> isLowSurrogate c"
      using surrogate_plain(8) [of c] by (auto simp: pair_def)
    then show ?thesis
    proof cases
      case esc
      then show ?thesis
        unfolding esc_def using ih by (auto simp: Cons unescape_def cons_fst_def)
    next
      case pair
      then obtain d ds where cs: "cs = d # ds" and d: "isLowSurrogate d" and c: "isHighSurrogate c"
        by (cases cs) (auto simp: pair_def)
      have ih2: "parse_string_body (quote_chars ds @ 0x22 # r) = Some (ds, r)"
        using less [of ds] Cons cs by simp
      have q: "quote_chars (c # cs) = c # d # quote_chars ds"
        using surrogate_plain [of c] c d cs by simp
      show ?thesis
        unfolding Cons q using surrogate_plain [of c] surrogate_plain [of d] c d ih2
        by (simp add: cs cons_fst_def)
    next
      case uni
      have q: "quote_chars (c # cs) = unicode_escape c @ quote_chars cs"
      proof (cases "c < 0x20")
        case True
        with uni(1) show ?thesis by (simp add: esc_def)
      next
        case False
        show ?thesis
        proof (cases "isHighSurrogate c")
          case True
          with uni(2) have "cs = [] \<or> \<not> isLowSurrogate (hd cs)" by (auto simp: pair_def)
          with True False uni(1) show ?thesis by (cases cs) (simp_all add: esc_def)
        next
          case h: False
          with False uni(3) have "isLowSurrogate c" by simp
          with h False uni(1) show ?thesis by (simp add: esc_def)
        qed
      qed
      show ?thesis
        unfolding Cons q using ih by (simp add: parse_unicode_escape cons_fst_def)
    next
      case plain
      then have q: "quote_chars (c # cs) = c # quote_chars cs" by (simp add: esc_def)
      from plain have "c \<noteq> 0x22" "c \<noteq> 0x5C" by (simp_all add: esc_def)
      with plain(2) show ?thesis
        unfolding Cons q using ih by (simp add: cons_fst_def)
    qed
  qed
qed

lemma parse_QuoteJSONString:
  "QuoteJSONString k @ r = 0x22 # quote_chars k @ 0x22 # r"
  by (simp add: QuoteJSONString_def)

section \<open>Values written and read\<close>

declare parse_value.simps [simp del] parse_elements.simps [simp del] parse_members.simps [simp del]

lemma insort_key_map:
  "insort_key h (F x) (map F ys) = map F (insort_key (\<lambda>y. h (F y)) x ys)"
  by (induction ys) simp_all

lemma sort_key_map: "sort_key h (map F xs) = map F (sort_key (\<lambda>y. h (F y)) xs)"
  by (induction xs) (simp_all add: insort_key_map)

lemma own_property_order_map:
  "own_property_order (map (\<lambda>p. (fst p, g (snd p))) ps) =
   map (\<lambda>p. (fst p, g (snd p))) (own_property_order ps)"
  by (simp add: own_property_order_def filter_map o_def sort_key_map)

lemma own_property_order_idem:
  "own_property_order (own_property_order ps) = own_property_order ps"
proof -
  define A where "A = sort_key (\<lambda>p. digits_value (fst p)) (filter (\<lambda>p. is_array_index (fst p)) ps)"
  define B where "B = filter (\<lambda>p. \<not> is_array_index (fst p)) ps"
  have a: "\<forall>p\<in>set A. is_array_index (fst p)" by (simp add: A_def)
  have b: "\<forall>p\<in>set B. \<not> is_array_index (fst p)" by (simp add: B_def)
  have 1: "filter (\<lambda>p. is_array_index (fst p)) (A @ B) = A"
    using a b by (simp add: filter_id_conv filter_empty_conv)
  have 2: "filter (\<lambda>p. \<not> is_array_index (fst p)) (A @ B) = B"
    using a b by (simp add: filter_id_conv filter_empty_conv)
  have "sorted (map (\<lambda>p. digits_value (fst p)) A)" by (simp add: A_def)
  then have 3: "sort_key (\<lambda>p. digits_value (fst p)) A = A" by (rule sort_key_id_if_sorted)
  have "own_property_order ps = A @ B" by (simp add: own_property_order_def A_def B_def)
  moreover have "own_property_order (A @ B) = A @ B"
    unfolding own_property_order_def 1 2 3 ..
  ultimately show ?thesis by simp
qed

lemma set_own_property_order: "set (own_property_order ps) = set ps"
  by (auto simp: own_property_order_def)

lemma distinct_own_property_order:
  assumes "distinct (map fst ps)"
  shows "distinct (map fst (own_property_order ps))"
proof -
  from assms have d: "distinct ps" "inj_on fst (set ps)" by (simp_all add: distinct_map)
  have "distinct (own_property_order ps)"
    using d(1) by (auto simp: own_property_order_def)
  with d(2) show ?thesis by (simp add: distinct_map set_own_property_order)
qed

lemma define_prop_fresh: "fst kv \<notin> fst ` set ps \<Longrightarrow> define_prop ps kv = ps @ [kv]"
  by (simp add: define_prop_def)

lemma foldl_define_prop_distinct:
  "distinct (map fst (ps @ kvs)) \<Longrightarrow> foldl define_prop ps kvs = ps @ kvs"
proof (induction kvs arbitrary: ps)
  case Nil
  show ?case by simp
next
  case (Cons kv kvs)
  from Cons.prems have "fst kv \<notin> fst ` set ps" by auto
  then have "define_prop ps kv = ps @ [kv]" by (rule define_prop_fresh)
  moreover from Cons.prems have "distinct (map fst ((ps @ [kv]) @ kvs))" by simp
  ultimately show ?case using Cons.IH [of "ps @ [kv]"] by simp
qed

lemma skip_ws_Cons: "\<not> isJsonWs c \<Longrightarrow> skip_ws (c # t) = c # t"
  by (simp add: skip_ws_def)

lemma skip_ws_append: "t \<noteq> [] \<Longrightarrow> \<not> isJsonWs (hd t) \<Longrightarrow> skip_ws (t @ r) = t @ r"
  by (cases t) (simp_all add: skip_ws_def)

lemma delim_Cons: "delim (0x2C # r)" "delim (0x5D # r)" "delim (0x7D # r)" "delim []"
  by (simp_all add: delim_def)

lemma join_comma_Cons: "\<exists>t. join_comma (x # xs) = x @ t"
  by (cases xs) simp_all

lemma parse_elements_join:
  assumes "vs \<noteq> []"
    and "\<And>v r. v \<in> set vs \<Longrightarrow> delim r \<Longrightarrow> parse_value (ser v @ r) = Some (f v, r)"
    and "\<And>v. v \<in> set vs \<Longrightarrow> ser v \<noteq> [] \<and> \<not> isJsonWs (hd (ser v))"
  shows "parse_elements (join_comma (map ser vs) @ 0x5D # r) = Some (map f vs, r)"
  using assms
proof (induction vs)
  case Nil
  then show ?case by simp
next
  case (Cons v vs)
  show ?case
  proof (cases vs)
    case Nil
    have "parse_value (ser v @ 0x5D # r) = Some (f v, 0x5D # r)"
      by (intro Cons.prems(2)) (simp_all add: delim_Cons)
    then show ?thesis
      by (subst parse_elements.simps) (simp add: Nil skip_ws_Cons isJsonWs_def)
  next
    case (Cons w ws)
    define rest where "rest = join_comma (map ser vs) @ 0x5D # r"
    have 1: "parse_value (ser v @ 0x2C # rest) = Some (f v, 0x2C # rest)"
      by (intro Cons.prems(2)) (simp_all add: delim_Cons)
    obtain t where t: "join_comma (map ser vs) = ser w @ t"
      using join_comma_Cons [of "ser w" "map ser ws"] Cons by auto
    have "ser w \<noteq> [] \<and> \<not> isJsonWs (hd (ser w))" using Cons.prems(3) [of w] Cons by simp
    then have 2: "skip_ws rest = rest" unfolding rest_def t by (simp add: skip_ws_append)
    have 3: "parse_elements rest = Some (map f vs, r)"
      unfolding rest_def using Cons Cons.prems by (intro Cons.IH) simp_all
    have "join_comma (map ser (v # vs)) @ 0x5D # r = ser v @ 0x2C # rest"
      by (simp add: Cons rest_def)
    then show ?thesis
      by (subst parse_elements.simps) (simp add: 1 2 3 skip_ws_Cons isJsonWs_def cons_fst_def)
  qed
qed

lemma parse_members_join:
  assumes "ps \<noteq> []"
    and "\<And>p r. p \<in> set ps \<Longrightarrow> delim r \<Longrightarrow> parse_value (ser (snd p) @ r) = Some (f (snd p), r)"
    and "\<And>p. p \<in> set ps \<Longrightarrow> ser (snd p) \<noteq> [] \<and> \<not> isJsonWs (hd (ser (snd p)))"
  shows "parse_members
      (join_comma (map (\<lambda>p. QuoteJSONString (fst p) @ [0x3A] @ ser (snd p)) ps) @ 0x7D # r) =
    Some (map (\<lambda>p. (fst p, f (snd p))) ps, r)"
  using assms
proof (induction ps)
  case Nil
  then show ?case by simp
next
  case (Cons p ps)
  define mk where "mk = (\<lambda>p :: jsstring \<times> 'a. QuoteJSONString (fst p) @ [0x3A] @ ser (snd p))"
  have sv: "skip_ws (ser (snd p) @ t) = ser (snd p) @ t" for t
    using Cons.prems(3) [of p] by (simp add: skip_ws_append)
  have head: "parse_members (mk p @ t) =
      (case parse_value (ser (snd p) @ t) of None \<Rightarrow> None
       | Some (v, r3) \<Rightarrow>
           (case skip_ws r3 of [] \<Rightarrow> None
            | d # ds \<Rightarrow>
                if d = 0x7D then Some ([(fst p, v)], ds)
                else if d = 0x2C \<and> length ds < length (mk p @ t)
                then cons_fst (fst p, v) (parse_members (skip_ws ds)) else None))" for t
    by (subst parse_members.simps)
      (simp add: mk_def QuoteJSONString_def parse_string_quote skip_ws_Cons isJsonWs_def sv)
  show ?case
  proof (cases ps)
    case Nil
    have "parse_value (ser (snd p) @ 0x7D # r) = Some (f (snd p), 0x7D # r)"
      by (intro Cons.prems(2)) (simp_all add: delim_Cons)
    then show ?thesis
      using head [of "0x7D # r"] by (simp add: Nil mk_def skip_ws_Cons isJsonWs_def)
  next
    case (Cons q qs)
    define rest where "rest = join_comma (map mk ps) @ 0x7D # r"
    have 1: "parse_value (ser (snd p) @ 0x2C # rest) = Some (f (snd p), 0x2C # rest)"
      by (intro Cons.prems(2)) (simp_all add: delim_Cons)
    obtain t where t: "join_comma (map mk ps) = mk q @ t"
      using join_comma_Cons [of "mk q" "map mk qs"] Cons by auto
    have 2: "skip_ws rest = rest"
      unfolding rest_def t by (simp add: mk_def QuoteJSONString_def skip_ws_Cons isJsonWs_def)
    have 3: "parse_members rest = Some (map (\<lambda>p. (fst p, f (snd p))) ps, r)"
      unfolding rest_def mk_def using Cons Cons.prems by (intro Cons.IH) simp_all
    have eq: "join_comma (map mk (p # ps)) @ 0x7D # r = mk p @ 0x2C # rest"
      by (simp add: Cons rest_def)
    have "parse_members (join_comma (map mk (p # ps)) @ 0x7D # r) =
        Some (map (\<lambda>p. (fst p, f (snd p))) (p # ps), r)"
      unfolding eq using head [of "0x2C # rest"]
      by (simp add: 1 2 3 skip_ws_Cons isJsonWs_def cons_fst_def)
    then show ?thesis unfolding mk_def .
  qed
qed

lemma parse_value_number:
  "isDigit c \<or> c = 0x2D \<Longrightarrow>
   parse_value (c # cs) = map_option (\<lambda>(n, r). (JNumber n, r)) (parse_number (c # cs))"
  by (subst parse_value.simps) (auto simp: isDigit_def js_def)

lemma parse_value_null: "parse_value (js ''null'' @ r) = Some (JNull, r)"
  by (subst parse_value.simps) (simp add: js_def)

lemma parse_value_array:
  "skip_ws cs = d # ds \<Longrightarrow> d \<noteq> 0x5D \<Longrightarrow>
   parse_value (0x5B # cs) = map_option (\<lambda>(vs, r). (JArray vs, r)) (parse_elements (skip_ws cs))"
  by (subst parse_value.simps) simp

lemma parse_value_object:
  "skip_ws cs = d # ds \<Longrightarrow> d \<noteq> 0x7D \<Longrightarrow>
   parse_value (0x7B # cs) =
     map_option (\<lambda>(kvs, r). (JObject (foldl define_prop [] kvs), r)) (parse_members (skip_ws cs))"
  by (subst parse_value.simps) simp

lemma serialize_number:
  assumes "double_number n" "delim r"
  shows "parse_value (JSON_serialize (JNumber n) @ r) = Some (reparsed (JNumber n), r)"
proof (cases "is_infinite n \<or> n = NaN")
  case True
  then show ?thesis by (simp add: parse_value_null)
next
  case False
  then have fin: "\<not> is_infinite n" "n \<noteq> NaN" by simp_all
  from Number_toString_hd [OF assms(1) fin(1)] obtain c cs where
    h: "Number_toString n = c # cs" "isDigit c \<or> c = 0x2D" by blast
  have pv: "parse_value (Number_toString n @ r) =
      map_option (\<lambda>(n, r). (JNumber n, r)) (parse_number (Number_toString n @ r))"
    using parse_value_number [OF h(2), of "cs @ r"] by (simp add: h(1))
  have "parse_number (Number_toString n @ r) = Some (if n = NegZero then Num 0 else n, r)"
  proof (cases n)
    case (Num x)
    show ?thesis
    proof (cases "x = 0")
      case True
      with parse_number_zero [OF assms(2)] show ?thesis by (simp add: Num js_def)
    next
      case False
      with assms(1) Num have "pos_double \<bar>x\<bar>" by (simp add: double_number_def)
      from parse_number_toString [OF False this assms(2)] show ?thesis by (simp add: Num)
    qed
  next
    case NegZero
    with parse_number_zero [OF assms(2)] show ?thesis by (simp add: js_def)
  qed (use fin in simp_all)
  with fin show ?thesis by (simp add: pv)
qed

lemma serialize_hd:
  assumes "well_formed v"
  shows "JSON_serialize v \<noteq> [] \<and> \<not> isJsonWs (hd (JSON_serialize v)) \<and>
    hd (JSON_serialize v) \<noteq> 0x5D \<and> hd (JSON_serialize v) \<noteq> 0x7D"
proof (cases v)
  case (JNumber n)
  show ?thesis
  proof (cases "is_infinite n \<or> n = NaN")
    case True
    then show ?thesis by (auto simp: JNumber js_def isJsonWs_def)
  next
    case False
    with assms JNumber Number_toString_hd [of n] obtain c cs where
      "Number_toString n = c # cs" "isDigit c \<or> c = 0x2D" by auto
    with False show ?thesis by (auto simp: JNumber isJsonWs_def isDigit_def)
  qed
qed (auto simp: js_def isJsonWs_def QuoteJSONString_def)

lemma parse_serialize:
  "well_formed v \<Longrightarrow> delim r \<Longrightarrow> parse_value (JSON_serialize v @ r) = Some (reparsed v, r)"
proof (induction v arbitrary: r)
  case JNull
  show ?case using parse_value_null [of r] by simp
next
  case (JBool b)
  show ?case by (subst parse_value.simps) (simp add: js_def)
next
  case (JNumber n)
  then show ?case by (intro serialize_number) simp_all
next
  case (JString s)
  show ?case
    by (subst parse_value.simps) (simp add: QuoteJSONString_def parse_string_quote)
next
  case (JArray vs)
  show ?case
  proof (cases vs)
    case Nil
    show ?thesis by (subst parse_value.simps) (simp add: Nil skip_ws_Cons isJsonWs_def)
  next
    case (Cons w ws)
    define body where "body = join_comma (map JSON_serialize vs) @ 0x5D # r"
    have wf: "\<And>v. v \<in> set vs \<Longrightarrow> well_formed v"
      using JArray.prems(1) by (simp add: list_all_iff)
    have pe: "parse_elements body = Some (map reparsed vs, r)"
      unfolding body_def using wf JArray.IH serialize_hd
      by (intro parse_elements_join) (simp_all add: Cons)
    obtain t where t: "join_comma (map JSON_serialize vs) = JSON_serialize w @ t"
      using join_comma_Cons [of "JSON_serialize w" "map JSON_serialize ws"] Cons by auto
    from serialize_hd [of w] wf [of w] Cons obtain c cs where
      c: "JSON_serialize w = c # cs" "\<not> isJsonWs c" "c \<noteq> 0x5D"
      by (cases "JSON_serialize w") auto
    have b: "body = c # cs @ t @ 0x5D # r" by (simp add: body_def t c(1))
    have sk: "skip_ws body = c # cs @ t @ 0x5D # r" using c(2) by (simp add: b skip_ws_Cons)
    have "parse_value (0x5B # body) = Some (JArray (map reparsed vs), r)"
      unfolding parse_value_array [OF sk c(3)] unfolding sk b [symmetric] by (simp add: pe)
    then show ?thesis by (simp add: body_def)
  qed
next
  case (JObject ps)
  define qs where "qs = own_property_order ps"
  define mk where "mk = (\<lambda>p :: jsstring \<times> json. QuoteJSONString (fst p) @ [0x3A] @ JSON_serialize (snd p))"
  have ser: "JSON_serialize (JObject ps) = 0x7B # join_comma (map mk qs) @ [0x7D]"
    using own_property_order_map [of JSON_serialize ps]
    by (simp add: qs_def mk_def o_def)
  have rp: "reparsed (JObject ps) = JObject (map (\<lambda>p. (fst p, reparsed (snd p))) qs)"
    using own_property_order_map [of reparsed ps] by (simp add: qs_def)
  show ?case
  proof (cases qs)
    case Nil
    show ?thesis
      unfolding ser rp by (subst parse_value.simps) (simp add: Nil skip_ws_Cons isJsonWs_def)
  next
    case (Cons q qs')
    define body where "body = join_comma (map mk qs) @ 0x7D # r"
    have sq: "set qs = set ps" by (simp add: qs_def set_own_property_order)
    have wf: "\<And>p. p \<in> set qs \<Longrightarrow> well_formed (snd p)"
      using JObject.prems(1) by (simp add: list_all_iff sq)
    have ih: "\<And>p r. p \<in> set qs \<Longrightarrow> delim r \<Longrightarrow>
        parse_value (JSON_serialize (snd p) @ r) = Some (reparsed (snd p), r)"
    proof -
      fix p r assume p: "p \<in> set qs" and r: "delim r"
      obtain k v where kv: "p = (k, v)" by (cases p)
      with p sq have "(k, v) \<in> set ps" by simp
      from JObject.IH [OF this, of v r] wf [OF p] r kv
      show "parse_value (JSON_serialize (snd p) @ r) = Some (reparsed (snd p), r)" by simp
    qed
    have pm: "parse_members body = Some (map (\<lambda>p. (fst p, reparsed (snd p))) qs, r)"
      unfolding body_def mk_def using ih wf serialize_hd
      by (intro parse_members_join) (simp_all add: Cons)
    obtain t where t: "join_comma (map mk qs) = mk q @ t"
      using join_comma_Cons [of "mk q" "map mk qs'"] Cons by auto
    have b: "body = 0x22 # quote_chars (fst q) @ 0x22 # 0x3A # JSON_serialize (snd q) @ t @ 0x7D # r"
      unfolding body_def t by (simp add: mk_def QuoteJSONString_def)
    have "distinct (map fst qs)"
      using JObject.prems(1) by (simp add: qs_def distinct_own_property_order)
    then have "distinct (map fst (map (\<lambda>p. (fst p, reparsed (snd p))) qs))"
      by (simp add: o_def)
    then have fd: "foldl define_prop [] (map (\<lambda>p. (fst p, reparsed (snd p))) qs)
        = map (\<lambda>p. (fst p, reparsed (snd p))) qs"
      using foldl_define_prop_distinct [of "[]"] by simp
    have sk: "skip_ws body =
        0x22 # quote_chars (fst q) @ 0x22 # 0x3A # JSON_serialize (snd q) @ t @ 0x7D # r"
      by (simp add: b skip_ws_Cons isJsonWs_def)
    have "parse_value (0x7B # body) = Some (JObject (map (\<lambda>p. (fst p, reparsed (snd p))) qs), r)"
      unfolding parse_value_object [OF sk, simplified] unfolding sk b [symmetric]
      by (simp add: pm fd)
    then show ?thesis unfolding ser rp by (simp add: body_def)
  qed
qed

lemma JSON_parse_stringify:
  assumes "well_formed v"
  shows "JSON_parse (JSON_stringify v) = Inr (reparsed v)"
proof -
  have 1: "skip_ws (JSON_serialize v) = JSON_serialize v"
    using skip_ws_append [of "JSON_serialize v" "[]"] serialize_hd [OF assms] by simp
  have 2: "parse_value (JSON_serialize v) = Some (reparsed v, [])"
    using parse_serialize [OF assms, of "[]"] by (simp add: delim_Cons)
  have 3: "skip_ws [] = []" by (simp add: skip_ws_def)
  show ?thesis by (simp add: JSON_parse_def JSON_stringify_def 1 2 3)
qed

lemma define_prop_well_formed:
  assumes "distinct (map fst ps)" "list_all (\<lambda>p. Q (snd p)) ps" "Q (snd kv)"
  shows "distinct (map fst (define_prop ps kv)) \<and> list_all (\<lambda>p. Q (snd p)) (define_prop ps kv)"
proof (cases "fst kv \<in> fst ` set ps")
  case True
  define f where "f = (\<lambda>p :: jsstring \<times> json. if fst p = fst kv then kv else p)"
  have d: "define_prop ps kv = map f ps" using True by (simp add: define_prop_def f_def)
  have "fst (f p) = fst p" for p by (simp add: f_def)
  then have k: "map fst (map f ps) = map fst ps" by (simp add: o_def)
  have "Q (snd (f p))" if "Q (snd p)" for p using that assms(3) by (simp add: f_def)
  with assms(2) have q: "list_all (\<lambda>p. Q (snd p)) (map f ps)" by (simp add: list_all_iff)
  show ?thesis unfolding d k using assms(1) q by simp
next
  case False
  then have d: "define_prop ps kv = ps @ [kv]" by (rule define_prop_fresh)
  from False assms show ?thesis unfolding d by simp
qed

lemma foldl_define_prop_well_formed:
  assumes "distinct (map fst ps)" "list_all (\<lambda>p. Q (snd p)) ps" "list_all (\<lambda>p. Q (snd p)) kvs"
  shows "distinct (map fst (foldl define_prop ps kvs)) \<and>
    list_all (\<lambda>p. Q (snd p)) (foldl define_prop ps kvs)"
  using assms
proof (induction kvs arbitrary: ps)
  case Nil
  then show ?case by simp
next
  case (Cons kv kvs)
  from define_prop_well_formed [of ps Q kv] Cons.prems
  have "distinct (map fst (define_prop ps kv))" "list_all (\<lambda>p. Q (snd p)) (define_prop ps kv)"
    by simp_all
  with Cons.prems(3) show ?case using Cons.IH [of "define_prop ps kv"] by simp
qed

lemma parse_value_cases:
  assumes "parse_value s = Some (v, r)"
  obtains (str) k where "v = JString k"
   | (arr0) "v = JArray []"
   | (arr) c cs d ds vs where "s = c # cs" "c \<noteq> 0x22" "c = 0x5B" "skip_ws cs = d # ds" "d \<noteq> 0x5D"
       "parse_elements (skip_ws cs) = Some (vs, r)" "v = JArray vs"
   | (obj0) "v = JObject []"
   | (obj) c cs d ds kvs where "s = c # cs" "c \<noteq> 0x22" "c \<noteq> 0x5B" "c = 0x7B"
       "skip_ws cs = d # ds" "d \<noteq> 0x7D"
       "parse_members (skip_ws cs) = Some (kvs, r)" "v = JObject (foldl define_prop [] kvs)"
   | (lit) "v = JBool True \<or> v = JBool False \<or> v = JNull"
   | (num) n where "parse_number s = Some (n, r)" "v = JNumber n"
  using assms
  by (subst (asm) parse_value.simps) (auto split: list.splits if_splits)

lemma parse_elements_cases:
  assumes "parse_elements s = Some (vs, r)"
  obtains (one) v r' where "parse_value s = Some (v, r')" "vs = [v]"
   | (more) v r' ds vs' where "parse_value s = Some (v, r')" "skip_ws r' = 0x2C # ds"
       "length ds < length s" "parse_elements (skip_ws ds) = Some (vs', r)" "vs = v # vs'"
  using assms
  by (subst (asm) parse_elements.simps)
    (auto split: list.splits if_splits option.splits simp: cons_fst_def)

lemma parse_members_cases:
  assumes "parse_members s = Some (kvs, r)"
  obtains (one) cs k r1 r2 v r3 where "s = 0x22 # cs" "parse_string_body cs = Some (k, r1)"
       "skip_ws r1 = 0x3A # r2" "length r2 < length s" "parse_value (skip_ws r2) = Some (v, r3)"
       "kvs = [(k, v)]"
   | (more) cs k r1 r2 v r3 ds kvs' where "s = 0x22 # cs" "parse_string_body cs = Some (k, r1)"
       "skip_ws r1 = 0x3A # r2" "length r2 < length s" "parse_value (skip_ws r2) = Some (v, r3)"
       "skip_ws r3 = 0x2C # ds" "length ds < length s"
       "parse_members (skip_ws ds) = Some (kvs', r)" "kvs = (k, v) # kvs'"
  using assms
  by (subst (asm) parse_members.simps)
    (auto split: list.splits if_splits option.splits simp: cons_fst_def)

lemma parse_well_formed:
  "parse_value s = Some (v, r) \<Longrightarrow> well_formed v"
  "parse_elements s = Some (vs, r) \<Longrightarrow> list_all well_formed vs"
  "parse_members s = Some (kvs, r) \<Longrightarrow> list_all (\<lambda>p. well_formed (snd p)) kvs"
proof (induction s and s and s arbitrary: v r and vs r and kvs r
    rule: parse_value_parse_elements_parse_members.induct)
  case (1 s)
  from "1.prems" show ?case
  proof (cases rule: parse_value_cases)
    case (arr c cs d ds vs)
    from "1.IH"(1) [OF arr(1-6)] arr(7) show ?thesis by simp
  next
    case (obj c cs d ds kvs)
    from "1.IH"(2) [OF obj(1-7)] have "list_all (\<lambda>p. well_formed (snd p)) kvs" .
    with foldl_define_prop_well_formed [of "[]" well_formed kvs] obj(8) show ?thesis by simp
  next
    case (num n)
    then show ?thesis by (simp add: parse_number_double)
  next
    case lit
    then show ?thesis by auto
  qed simp_all
next
  case (2 s)
  from "2.prems" show ?case
  proof (cases rule: parse_elements_cases)
    case (one v r')
    with "2.IH"(1) [of v r'] show ?thesis by simp
  next
    case (more v r' ds vs')
    have "list_all well_formed vs'"
      by (rule "2.IH"(2) [of "(v, r')" v r' "0x2C" ds vs' r]) (use more in simp_all)
    with "2.IH"(1) [of v r'] more show ?thesis by simp
  qed
next
  case (3 s)
  from "3.prems" show ?case
  proof (cases rule: parse_members_cases)
    case (one cs k r1 r2 v r3)
    have "well_formed v"
      by (rule "3.IH"(1) [of "0x22" cs "(k, r1)" k r1 "0x3A" r2 v r3]) (use one in simp_all)
    with one show ?thesis by simp
  next
    case (more cs k r1 r2 v r3 ds kvs')
    have "well_formed v"
      by (rule "3.IH"(1) [of "0x22" cs "(k, r1)" k r1 "0x3A" r2 v r3]) (use more in simp_all)
    moreover have "list_all (\<lambda>p. well_formed (snd p)) kvs'"
      by (rule "3.IH"(2) [of "0x22" cs "(k, r1)" k r1 "0x3A" r2 "(v, r3)" v r3 "0x2C" ds kvs' r])
        (use more in simp_all)
    ultimately show ?thesis using more by simp
  qed
qed

lemma JSON_parse_InrE:
  assumes "JSON_parse s = Inr v"
  obtains r where "parse_value (skip_ws s) = Some (v, r)" "skip_ws r = []"
  using assms by (auto simp: JSON_parse_def split: option.splits if_splits)

lemma JSON_parse_well_formed: "JSON_parse s = Inr v \<Longrightarrow> well_formed v"
  by (erule JSON_parse_InrE) (rule parse_well_formed(1))

lemma serialize_reparsed: "JSON_serialize (reparsed v) = JSON_serialize v"
proof (induction v)
  case (JNumber n)
  show ?case by (cases n) (simp_all add: js_def)
next
  case (JArray vs)
  then have m: "map (\<lambda>v. JSON_serialize (reparsed v)) vs = map JSON_serialize vs"
    by (intro map_cong) simp_all
  show ?case by (simp add: o_def m)
next
  case (JObject ps)
  define qs where "qs = own_property_order ps"
  have "map (\<lambda>p. (fst p, JSON_serialize (reparsed (snd p)))) qs
      = map (\<lambda>p. (fst p, JSON_serialize (snd p))) qs"
    using JObject by (intro map_cong) (auto simp: snds.simps qs_def set_own_property_order)
  then have "map (\<lambda>p. (fst p, JSON_serialize (snd p))) (map (\<lambda>p. (fst p, reparsed (snd p))) qs)
      = map (\<lambda>p. (fst p, JSON_serialize (snd p))) qs" by (simp add: o_def)
  then have "own_property_order (map (\<lambda>p. (fst p, JSON_serialize (snd p)))
        (own_property_order (map (\<lambda>p. (fst p, reparsed (snd p))) ps)))
      = own_property_order (map (\<lambda>p. (fst p, JSON_serialize (snd p))) qs)"
    unfolding own_property_order_map [of reparsed ps] qs_def by (simp only:)
  also have "\<dots> = own_property_order (own_property_order (map (\<lambda>p. (fst p, JSON_serialize (snd p))) ps))"
    unfolding qs_def own_property_order_map [of JSON_serialize ps] ..
  finally show ?case by (simp add: own_property_order_idem)
qed simp_all


lemma minify_json:
  assumes "JSON_parse x = Inr v"
  shows "JSON_parse (JSON_stringify v) = Inr (reparsed v)"
    "JSON_stringify (reparsed v) = JSON_stringify v"
  using JSON_parse_stringify [OF JSON_parse_well_formed [OF assms]]
  by (simp_all add: JSON_stringify_def serialize_reparsed)

lemma skip_ws_length: "length (skip_ws x) \<le> length x"
  by (simp add: skip_ws_def length_dropWhile_le)

lemma skip_ws_ConsD: "skip_ws x = d # y \<Longrightarrow> length y < length x"
  using skip_ws_length [of x] by simp

lemma parse_string_body_shorter:
  "parse_string_body cs = Some (k, r) \<Longrightarrow> length r < length cs"
proof (induction "length cs" arbitrary: cs k r rule: less_induct)
  case less
  show ?case
  proof (cases cs)
    case Nil
    with less.prems show ?thesis by simp
  next
    case (Cons c t)
    consider (q) "c = 0x22" | (e) "c = 0x5C" | (p) "c \<noteq> 0x22" "c \<noteq> 0x5C" by blast
    then show ?thesis
    proof cases
      case q
      with less.prems Cons show ?thesis by simp
    next
      case p
      with less.prems Cons obtain k' where "parse_string_body t = Some (k', r)"
        by (auto simp: cons_fst_def split: if_splits)
      from less.hyps [OF _ this] Cons show ?thesis by simp
    next
      case e
      with less.prems Cons obtain t' k' where
        "parse_string_body t' = Some (k', r)" "length t' < length cs"
        by (auto simp: cons_fst_def split: if_splits list.splits option.splits)
      from less.hyps [OF this(2) this(1)] this(2) show ?thesis by simp
    qed
  qed
qed

lemma parse_number_shorter: "parse_number s = Some (n, r) \<Longrightarrow> length r < length s"
proof -
  assume a: "parse_number s = Some (n, r)"
  have u: "length r' < length t" if "parse_unsigned t = Some (x, r')" for t x r'
  proof -
    from that obtain ip r1 fp r2 e where
      1: "parse_int_part t = Some (ip, r1)" and 2: "parse_frac_part r1 = Some (fp, r2)"
      and 3: "parse_exp_part r2 = Some (e, r')"
      by (auto simp: parse_unsigned_def split: option.splits)
    from 1 have "length r1 < length t"
      using length_dropWhile_le [of isDigit "tl t"]
      by (cases t) (auto simp: parse_int_part_def split: if_splits)
    moreover from 2 have "length r2 \<le> length r1"
      using length_dropWhile_le [of isDigit "tl r1"]
      by (cases r1) (auto simp: parse_frac_part_def split: if_splits)
    moreover have "length r' \<le> length x" if "parse_exp_digits b x = Some (e, r')" for b x
      using that length_dropWhile_le [of isDigit x]
      by (auto simp: parse_exp_digits_def split: if_splits)
    with 3 have "length r' \<le> length r2"
      by (cases r2) (fastforce simp: parse_exp_part_def split: if_splits list.splits)+
    ultimately show ?thesis by simp
  qed
  from a show ?thesis
    by (cases s) (auto simp: parse_number_def split: if_splits dest!: u)
qed

lemma parse_value_rest:
  assumes "parse_value s = Some (v, r)"
  obtains (str) cs k where "s = 0x22 # cs" "parse_string_body cs = Some (k, r)"
   | (empty) c cs where "s = c # cs" "skip_ws cs = 0x5D # r \<or> skip_ws cs = 0x7D # r"
   | (arr) c cs d ds vs where "s = c # cs" "c \<noteq> 0x22" "c = 0x5B" "skip_ws cs = d # ds"
       "d \<noteq> 0x5D" "parse_elements (skip_ws cs) = Some (vs, r)"
   | (obj) c cs d ds kvs where "s = c # cs" "c \<noteq> 0x22" "c \<noteq> 0x5B" "c = 0x7B"
       "skip_ws cs = d # ds" "d \<noteq> 0x7D" "parse_members (skip_ws cs) = Some (kvs, r)"
   | (lit) "s \<noteq> []" "r = drop 4 s \<or> r = drop 5 s"
   | (num) n where "parse_number s = Some (n, r)"
  using assms
  by (subst (asm) parse_value.simps) (auto split: list.splits if_splits)

lemma parse_elements_rest:
  assumes "parse_elements s = Some (vs, r)"
  obtains (one) v r' where "parse_value s = Some (v, r')" "skip_ws r' = 0x5D # r"
   | (more) v r' ds vs' where "parse_value s = Some (v, r')" "skip_ws r' = 0x2C # ds"
       "length ds < length s" "parse_elements (skip_ws ds) = Some (vs', r)"
  using assms
  by (subst (asm) parse_elements.simps)
    (auto split: list.splits if_splits option.splits simp: cons_fst_def)

lemma parse_members_rest:
  assumes "parse_members s = Some (kvs, r)"
  obtains (one) cs k r1 r2 v r3 where "s = 0x22 # cs" "parse_string_body cs = Some (k, r1)"
       "skip_ws r1 = 0x3A # r2" "length r2 < length s" "parse_value (skip_ws r2) = Some (v, r3)"
       "skip_ws r3 = 0x7D # r"
   | (more) cs k r1 r2 v r3 ds kvs' where "s = 0x22 # cs" "parse_string_body cs = Some (k, r1)"
       "skip_ws r1 = 0x3A # r2" "length r2 < length s" "parse_value (skip_ws r2) = Some (v, r3)"
       "skip_ws r3 = 0x2C # ds" "length ds < length s"
       "parse_members (skip_ws ds) = Some (kvs', r)"
  using assms
  by (subst (asm) parse_members.simps)
    (auto split: list.splits if_splits option.splits simp: cons_fst_def)

lemma parse_shorter:
  "parse_value s = Some (v, r) \<Longrightarrow> length r < length s"
  "parse_elements s = Some (vs, r) \<Longrightarrow> length r < length s"
  "parse_members s = Some (kvs, r) \<Longrightarrow> length r < length s"
proof (induction s and s and s arbitrary: v r and vs r and kvs r
    rule: parse_value_parse_elements_parse_members.induct)
  case (1 s)
  from "1.prems" show ?case
  proof (cases rule: parse_value_rest)
    case (str cs k)
    with parse_string_body_shorter [of cs k r] show ?thesis by simp
  next
    case (empty c cs)
    then have "length r < length cs" by (auto dest: skip_ws_ConsD)
    with empty show ?thesis by simp
  next
    case (arr c cs d ds vs)
    from "1.IH"(1) [OF arr(1-6)] skip_ws_length [of cs] arr(1) show ?thesis by simp
  next
    case (obj c cs d ds kvs)
    from "1.IH"(2) [OF obj(1-7)] skip_ws_length [of cs] obj(1) show ?thesis by simp
  next
    case lit
    then show ?thesis by (cases s) auto
  next
    case (num n)
    then show ?thesis by (rule parse_number_shorter)
  qed
next
  case (2 s)
  from "2.prems" show ?case
  proof (cases rule: parse_elements_rest)
    case (one v r')
    with "2.IH"(1) [of v r'] skip_ws_ConsD [of r' "0x5D" r] show ?thesis by simp
  next
    case (more v r' ds vs')
    have "length r < length (skip_ws ds)"
      by (rule "2.IH"(2) [of "(v, r')" v r' "0x2C" ds vs' r]) (use more in simp_all)
    with skip_ws_length [of ds] more(3) show ?thesis by simp
  qed
next
  case (3 s)
  from "3.prems" show ?case
  proof (cases rule: parse_members_rest)
    case (one cs k r1 r2 v r3)
    have "length r3 < length (skip_ws r2)"
      by (rule "3.IH"(1) [of "0x22" cs "(k, r1)" k r1 "0x3A" r2 v r3]) (use one in simp_all)
    with skip_ws_length [of r2] one(4) skip_ws_ConsD [OF one(6)] show ?thesis by simp
  next
    case (more cs k r1 r2 v r3 ds kvs')
    have "length r < length (skip_ws ds)"
      by (rule "3.IH"(2) [of "0x22" cs "(k, r1)" k r1 "0x3A" r2 "(v, r3)" v r3 "0x2C" ds kvs' r])
        (use more in simp_all)
    with skip_ws_length [of ds] more(7) show ?thesis by simp
  qed
qed

text \<open>The tests on lengths in the parsers hold whenever they are reached.\<close>

lemma parse_guards:
  "parse_value s = Some (v, r) \<Longrightarrow> skip_ws r = d # ds \<Longrightarrow> length ds < length s"
  "parse_string_body cs = Some (k, r1) \<Longrightarrow> skip_ws r1 = col # r2 \<Longrightarrow> length r2 < length (c # cs)"
  "parse_string_body cs = Some (k, r1) \<Longrightarrow> skip_ws r1 = col # r2 \<Longrightarrow>
   parse_value (skip_ws r2) = Some (w, r3) \<Longrightarrow> skip_ws r3 = e # es \<Longrightarrow>
   length es < length (c # cs)"
  using parse_shorter(1) [of s v r] skip_ws_ConsD [of r d ds]
    parse_string_body_shorter [of cs k r1] skip_ws_ConsD [of r1 col r2]
    parse_shorter(1) [of "skip_ws r2" w r3] skip_ws_ConsD [of r3 e es] skip_ws_length [of r2]
  by simp_all

section \<open>Validation\<close>

text \<open>
  C6. The claim: for every kind, a text that is empty or consists of white space only is
  invalid, with the reason "empty input". The verdict is invalid, but the reason the program
  gives is another text.
\<close>

theorem validateContent_empty_reason_differs:
  "error (validateContent [] T_html) \<noteq> Some (Text (js ''empty input''))"
  by (simp add: eval_defs)

text \<open>
  C6, as it holds: for every kind, a text that is empty or consists of white space only is
  invalid, and the reason is "Content cannot be empty".
\<close>

theorem validateContent_blank:
  "list_all isWhiteSpace content \<Longrightarrow>
   validateContent content type = \<lparr>isValid = False, error = Some (Text (js ''Content cannot be empty''))\<rparr>"
  by (simp add: trim_Nil_iff list_all_iff invalid_def)

theorem validateContent_blank_witness:
  "list_all isWhiteSpace [0x20, 0x0A, 0x09] \<and>
   validateContent [0x20, 0x0A, 0x09] T_json =
     \<lparr>isValid = False, error = Some (Text (js ''Content cannot be empty''))\<rparr>"
  using validateContent_blank [of "[0x20, 0x0A, 0x09]" T_json]
  by (simp add: isWhiteSpace_def isLineTerminator_def)

text \<open>
  C10. Under the kind Script, a text that is not blank and in which one of the markers
  \<^verbatim>\<open>function\<close>, \<^verbatim>\<open>const\<close>, \<^verbatim>\<open>let\<close>, \<^verbatim>\<open>var\<close>, \<^verbatim>\<open>class\<close>, \<^verbatim>\<open>import\<close>,
  \<^verbatim>\<open>export\<close>, \<^verbatim>\<open>=>\<close> occurs anywhere is valid; so English prose with the word
  "export" in it is valid.
\<close>

theorem validateContent_js_marker:
  "trim content \<noteq> [] \<Longrightarrow> p \<in> set js_markers \<Longrightarrow> sublist p content \<Longrightarrow>
   validateContent content T_js = \<lparr>isValid = True, error = None\<rparr>"
  by (auto simp: m_js_def regex_test_m_alt valid_def)

theorem validateContent_js_marker_witness:
  "trim (js ''We '' @ js ''export'' @ js '' goods to many countries.'') \<noteq> [] \<and>
   js ''export'' \<in> set js_markers \<and>
   sublist (js ''export'') (js ''We '' @ js ''export'' @ js '' goods to many countries.'') \<and>
   validateContent (js ''We '' @ js ''export'' @ js '' goods to many countries.'') T_js =
     \<lparr>isValid = True, error = None\<rparr>"
proof -
  have a: "trim (js ''We '' @ js ''export'' @ js '' goods to many countries.'') \<noteq> []"
    by (simp add: js_def trim_def isWhiteSpace_def isLineTerminator_def)
  have b: "js ''export'' \<in> set js_markers"
    by (simp add: js_markers_def)
  have c: "sublist (js ''export'') (js ''We '' @ js ''export'' @ js '' goods to many countries.'')"
    by simp
  from validateContent_js_marker [OF a b c] a b c show ?thesis
    by blast
qed

section \<open>Minification: the fixtures\<close>

text \<open>
  C3. The claim: \<^verbatim>\<open>.a { color: red; /* note */ }\<close> is a valid stylesheet and minifies to
  \<^verbatim>\<open>.a{color:red;}\<close>. The output of the program is another text.
\<close>

theorem mockMinify_css_fixture_differs:
  "mockMinify (js ''.a { color: red; /* note */ }'') T_css \<noteq> Inr (js ''.a{color:red;}'')"
  by (simp add: eval_defs)

text \<open>
  C3, as it holds: the text is a valid stylesheet and minifies to \<^verbatim>\<open>.a {color: red;}\<close>:
  the space in front of the opening brace and the space behind the colon stay.
\<close>

theorem mockMinify_css_fixture:
  "validateContent (js ''.a { color: red; /* note */ }'') T_css = \<lparr>isValid = True, error = None\<rparr> \<and>
   mockMinify (js ''.a { color: red; /* note */ }'') T_css = Inr (js ''.a {color: red;}'')"
  by (simp add: eval_defs)

section \<open>Minification: white space\<close>

text \<open>
  C9. For every text and every kind but structured data, the minified text holds no
  newline and no tab, no two white-space characters side by side (every white-space
  character in it is a single space), and neither begins nor ends with white space: the
  white space is collapsed everywhere, inside string literals and attribute values too.
\<close>

theorem mockMinify_white_space:
  "type \<noteq> T_json \<Longrightarrow>
   \<exists>y. mockMinify content type = Inr y \<and> ws_clean y \<and> trimmed y \<and>
       0x0A \<notin> set y \<and> 0x09 \<notin> set y \<and> 0x0D \<notin> set y"
proof -
  assume ty: "type \<noteq> T_json"
  have cl: "ws_clean y \<and> trimmed y" if "mockMinify content type = Inr y" for y
    using that ty
    by (cases type)
       (auto simp: js_literals ws_clean_trim trimmed_trim ws_clean_gt_ws_lt ws_clean_ws_chr
          ws_clean_chr_ws ws_clean_collapse)
  from ty obtain y where y: "mockMinify content type = Inr y"
    by (cases type) auto
  with cl have c: "ws_clean y" and t: "trimmed y" by auto
  have "isWhiteSpace 0x0A" "isWhiteSpace 0x09" "isWhiteSpace 0x0D"
    by (simp_all add: isWhiteSpace_def isLineTerminator_def)
  with c have "0x0A \<notin> set y \<and> 0x09 \<notin> set y \<and> 0x0D \<notin> set y"
    by (auto dest: ws_clean_chars)
  with y c t show ?thesis by blast
qed

theorem mockMinify_white_space_witness:
  "T_html \<noteq> T_json \<and>
   (\<exists>y. mockMinify [0x3C, 0x61, 0x3E, 0x0A, 0x09, 0x20, 0x78, 0x20] T_html = Inr y \<and> ws_clean y \<and>
        trimmed y \<and> 0x0A \<notin> set y \<and> 0x09 \<notin> set y \<and> 0x0D \<notin> set y)"
  using mockMinify_white_space [of T_html "[0x3C, 0x61, 0x3E, 0x0A, 0x09, 0x20, 0x78, 0x20]"]
  by simp

section \<open>Minification: comments in a script\<close>

text \<open>
  C1. The claim: a script that holds a string literal with the content
  \<^verbatim>\<open>//not a comment\<close> keeps this literal in the minified text. The program cuts the
  literal at its two slashes.
\<close>

theorem mockMinify_js_literal_cut:
  \<open>mockMinify (js ''const s = '' @ js ''"//not a comment"'' @ js '';'') T_js = Inr (js ''const s = "'') \<and>
   \<not> sublist (js ''"//not a comment"'') (js ''const s = "'')\<close>
proof -
  have \<open>length (js ''const s = "'') < length (js ''"//not a comment"'')\<close>
    by (simp add: js_def)
  then have \<open>\<not> sublist (js ''"//not a comment"'') (js ''const s = "'')\<close>
    using sublist_length_le leD by blast
  moreover have \<open>mockMinify (js ''const s = '' @ js ''"//not a comment"'' @ js '';'') T_js = Inr (js ''const s = "'')\<close>
    by (simp add: eval_defs)
  ultimately show ?thesis by simp
qed

text \<open>
  C1, as it holds: the minified text of a script (js or jsx) never holds two slashes side
  by side: the rule for line comments removes everything from \<^verbatim>\<open>//\<close> to the end of the
  line, inside a string literal too. So the literal with the content
  \<^verbatim>\<open>//not a comment\<close> is never kept.
\<close>

theorem mockMinify_js_no_slashes:
  \<open>type = T_js \<or> type = T_jsx \<Longrightarrow>
   \<exists>y. mockMinify content type = Inr y \<and> \<not> sublist (js ''//'') y \<and>
       \<not> sublist (js ''"//not a comment"'') y\<close>
proof -
  assume ty: "type = T_js \<or> type = T_jsx"
  let ?y = "ws_passes (replace_all m_block_comment [] (replace_all m_line_comment [] content))"
  have "\<not> has_adj slashes ?y"
    by (intro ws_passes_slashes block_comment_preserves_slashes no_slashes_line_comment)
  then have 1: "\<not> sublist (js ''//'') ?y"
    by (simp add: js_literals sublist_pair)
  have \<open>sublist (js ''//'') (js [CHR 0x22] @ js ''//'' @ js ''not a comment"'')\<close>
    by (rule sublist_appendI)
  then have \<open>sublist (js ''//'') (js ''"//not a comment"'')\<close>
    by (simp add: js_def)
  with 1 have \<open>\<not> sublist (js ''"//not a comment"'') ?y\<close>
    using sublist_order.order.trans by blast
  with 1 show ?thesis
    unfolding mockMinify_js [OF ty] by blast
qed

theorem mockMinify_js_no_slashes_witness:
  \<open>(T_js = T_js \<or> T_js = T_jsx) \<and>
   (\<exists>y. mockMinify (js ''const s = '' @ js ''"//not a comment"'' @ js '';'') T_js = Inr y \<and>
        \<not> sublist (js ''//'') y \<and> \<not> sublist (js ''"//not a comment"'') y)\<close>
  using mockMinify_js_no_slashes [of T_js \<open>js ''const s = '' @ js ''"//not a comment"'' @ js '';''\<close>]
  by simp

section \<open>Structured data\<close>

lemma to_double_numeral:
  "(numeral n :: int) < 2 ^ 53 \<Longrightarrow> to_double (numeral n) = Num (numeral n)"
  using to_double_int [of "numeral n"] by simp

lemma to_double_one: "to_double 1 = Num 1"
  using to_double_int [of 1] by simp

lemma to_double_zero: "to_double 0 = Num 0"
  by (simp add: to_double_def)

lemma to_double_overflow: "2 ^ 1024 \<le> v \<Longrightarrow> to_double v = PosInfinity"
proof -
  assume v: "2 ^ 1024 \<le> v"
  have "(0 :: rat) < 2 ^ 1024" by simp
  from this v have "0 < v" by (rule less_le_trans)
  with round_pos_overflow [OF v] show ?thesis by (simp add: to_double_def)
qed

lemma floorlog_rat_10_unit: "1 \<le> v \<Longrightarrow> v < 10 \<Longrightarrow> floorlog_rat 10 v = 0"
  by (rule floorlog_rat_unique) simp_all

lemmas json_eval =
  JSON_parse_def JSON_stringify_def skip_ws_def isJsonWs_def isDigit_def digits_value_def
  parse_int_part_def parse_frac_part_def parse_exp_part_def parse_exp_digits_def
  parse_unsigned_def parse_number_def define_prop_def cons_fst_def pow10_def
  to_double_numeral to_double_one to_double_zero to_double_overflow floorlog_rat_10_unit
  format_digits_def QuoteJSONString_def is_array_index_def own_property_order_def
  unescape_def hex_value_def js_def Let_def isHighSurrogate_def isLowSurrogate_def
  parse_value.simps parse_elements.simps parse_members.simps dec_digits.simps



lemma shortest_digits_found:
  "filter (digits_valid x k) (digit_candidates x k) = [c] \<Longrightarrow>
   shortest_digits (Suc fuel) k x = c"
  by simp

lemma shortest_digits_next:
  "filter (digits_valid x k) (digit_candidates x k) = [] \<Longrightarrow>
   shortest_digits (Suc fuel) k x = shortest_digits fuel (Suc k) x"
  by simp

lemma number_digits_first:
  assumes "filter (digits_valid x 1) (digit_candidates x 1) = [c]"
  shows "number_digits x = c"
proof -
  have "number_digits x = shortest_digits (Suc 1399) 1 x" by (simp add: number_digits_def)
  then show ?thesis by (simp only: shortest_digits_found [OF assms])
qed

lemmas digits_eval =
  digit_candidates_def digits_valid_def digits_value_at_def pow10_def Let_def
  to_double_numeral to_double_one floorlog_rat_10_unit


lemma number_digits_2: "number_digits 2 = (1, 2)"
  by (rule number_digits_first) (simp add: digits_eval)



lemma parse_sample:
  \<open>JSON_parse (js ''{"b": [-0, 2e0], "1": "A"}'') =
      Inr (JObject [(js ''b'', JArray [JNumber NegZero, JNumber (Num 2)]),
                    (js ''1'', JString (js ''A''))])\<close>
  by (simp add: json_eval)

lemma stringify_sample:
  \<open>JSON_stringify (JObject [(js ''b'', JArray [JNumber NegZero, JNumber (Num 2)]),
                    (js ''1'', JString (js ''A''))]) = js ''{"1":"A","b":[0,2]}''\<close>
  by (simp add: json_eval number_digits_2)





section \<open>Minification: running it twice\<close>

text \<open>
  C4. The claim: for every text and every kind, minifying the minified text changes
  nothing. For a markup and for a stylesheet, removing a comment can join the two halves
  of a new comment, which the second run removes.
\<close>

theorem mockMinify_not_idempotent:
  "mockMinify (js ''<!-<!---->- -->'') T_html = Inr (js ''<!-- -->'') \<and>
   mockMinify (js ''<!-- -->'') T_html = Inr [] \<and> js ''<!-- -->'' \<noteq> [] \<and>
   mockMinify (js ''//**/* c */'') T_css = Inr (js ''/* c */'') \<and>
   mockMinify (js ''/* c */'') T_css = Inr [] \<and> js ''/* c */'' \<noteq> []"
  by (simp add: eval_defs)

text \<open>
  C4, as it holds: for a text of any kind on which \<^verbatim>\<open>mockMinify\<close> returns, minifying
  the minified text changes nothing exactly when the minified text holds no comment; and
  the minified text of a script (js, jsx) or of a JSON text never holds one, so that for
  these three kinds minifying twice is minifying once.
\<close>

theorem mockMinify_idempotent:
  "mockMinify content type = Inr y \<Longrightarrow>
   (mockMinify y type = Inr y \<longleftrightarrow> \<not> has_comment type y) \<and>
   (type = T_js \<or> type = T_jsx \<or> type = T_json \<longrightarrow> \<not> has_comment type y)"
proof -
  assume y: "mockMinify content type = Inr y"
  have a: "mockMinify y type = Inr y" if "\<not> has_comment type y"
  proof (cases type)
    case T_html
    with that y show ?thesis using html_idempotent [of content y] by simp
  next
    case T_css
    with that y show ?thesis using css_idempotent [of content y] by simp
  next
    case T_js
    with y show ?thesis using js_idempotent [of type content] by auto
  next
    case T_jsx
    with y show ?thesis using js_idempotent [of type content] by auto
  next
    case T_json
    with y obtain v where v: "JSON_parse content = Inr v" and yv: "y = JSON_stringify v"
      by (cases "JSON_parse content") auto
    from minify_json [OF v] show ?thesis by (simp add: T_json yv)
  qed
  have b: "\<not> has_comment type y" if "mockMinify y type = Inr y"
  proof (cases "type = T_json")
    case True
    then show ?thesis by simp
  next
    case False
    from comment_not_fixed [OF False, of y] that show ?thesis by blast
  qed
  have c: "\<not> has_comment type y" if "type = T_js \<or> type = T_jsx \<or> type = T_json"
  proof (cases "type = T_json")
    case True
    then show ?thesis by simp
  next
    case False
    with that have "type = T_js \<or> type = T_jsx" by simp
    from js_output_no_comment [OF this y] show ?thesis .
  qed
  from a b c show ?thesis by blast
qed

theorem mockMinify_idempotent_witness:
  \<open>mockMinify (js ''{"b": [-0, 2e0], "1": "A"}'') T_json = Inr (js ''{"1":"A","b":[0,2]}'') \<and>
   mockMinify (js ''{"1":"A","b":[0,2]}'') T_json = Inr (js ''{"1":"A","b":[0,2]}'') \<and>
   \<not> has_comment T_json (js ''{"1":"A","b":[0,2]}'')\<close>
proof -
  have a: \<open>mockMinify (js ''{"b": [-0, 2e0], "1": "A"}'') T_json = Inr (js ''{"1":"A","b":[0,2]}'')\<close>
    by (simp add: parse_sample stringify_sample)
  from mockMinify_idempotent [OF a] a show ?thesis by simp
qed

section \<open>Minification: sizes\<close>



section \<open>The ceiling on sizes\<close>

text \<open>
  C7. The claim: for every kind, validation rejects a text of more than 1 MiB in UTF-8 with
  the reason "input exceeds size limit", so a text of 2 MiB is invalid whatever the kind.
  \<^verbatim>\<open>validateContent\<close> looks at no size: a markup text of 2 MiB is valid.
\<close>

theorem validateContent_no_size_limit:
  "blob_size (js ''<a>'' @ replicate 2097149 0x61) = 2 * 1024 * 1024 \<and>
   validateContent (js ''<a>'' @ replicate 2097149 0x61) T_html = \<lparr>isValid = True, error = None\<rparr>"
proof -
  have "\<forall>c \<in> set (js ''<a>'' @ replicate 2097149 0x61). c < 0x80"
    by (auto simp: js_def)
  then have "blob_size (js ''<a>'' @ replicate 2097149 0x61) = length (js ''<a>'' @ replicate 2097149 0x61)"
    by (rule blob_size_ascii)
  then have 1: "blob_size (js ''<a>'' @ replicate 2097149 0x61) = 2 * 1024 * 1024"
    by (simp add: js_def)
  have "m_tag (0x3C # 0x61 # 0x3E # replicate 2097149 0x61) = Some 3"
    by (simp add: m_tag_def)
  then have 2: "regex_test m_tag (js ''<a>'' @ replicate 2097149 0x61)"
    by (simp add: js_def)
  have 3: "trim (js ''<a>'' @ replicate 2097149 0x61) \<noteq> []"
    by (simp add: trim_Nil_iff js_def)
  from 1 2 3 show ?thesis by (simp add: valid_def)
qed

text \<open>
  C7, as it holds: the ceiling is on uploaded files. For every kind, a file of more than
  \<open>1024 * 1024\<close> bytes is rejected by \<^verbatim>\<open>handleFileUpload\<close> before its text is read or
  validated, with the reason "File size exceeds 1MB limit"; nothing else of the state
  changes.
\<close>

theorem handleFileUpload_size_limit:
  "file_size file > 1024 * 1024 \<Longrightarrow>
   handleFileUpload toLowerCase st (Some file) =
     st\<lparr>validation := \<lparr>isValid = False, error = Some (Text (js ''File size exceeds 1MB limit''))\<rparr>\<rparr>"
  by (simp add: handleFileUpload_def invalid_def)

theorem handleFileUpload_size_limit_witness:
  "file_size \<lparr>file_name = js ''big.html'', file_size = 2 * 1024 * 1024, file_text = js ''<a>''\<rparr> > 1024 * 1024 \<and>
   handleFileUpload (\<lambda>s. s)
     \<lparr>inputMethod = Upload, selectedFileType = T_html, inputCode = [], fileName = [],
      validation = \<lparr>isValid = False, error = None\<rparr>, minificationResult = None, isProcessing = False\<rparr>
     (Some \<lparr>file_name = js ''big.html'', file_size = 2 * 1024 * 1024, file_text = js ''<a>''\<rparr>) =
     \<lparr>inputMethod = Upload, selectedFileType = T_html, inputCode = [], fileName = [],
      validation = \<lparr>isValid = False, error = Some (Text (js ''File size exceeds 1MB limit''))\<rparr>,
      minificationResult = None, isProcessing = False\<rparr>"
  using handleFileUpload_size_limit
    [of "\<lparr>file_name = js ''big.html'', file_size = 2 * 1024 * 1024, file_text = js ''<a>''\<rparr>" "\<lambda>s. s"
        "\<lparr>inputMethod = Upload, selectedFileType = T_html, inputCode = [], fileName = [],
      validation = \<lparr>isValid = False, error = None\<rparr>, minificationResult = None, isProcessing = False\<rparr>"]
  by simp

section \<open>The report\<close>

lemma reduction_below_tie: "reduction 40 17 = Num 57"
proof -
  have n: "number_of_nat 40 = Num 40" "number_of_nat 17 = Num 17"
    using number_of_nat_exact [of 40] number_of_nat_exact [of 17] by simp_all
  have s: "js_sub (Num 40) (Num 17) = Num 23"
    using to_double_int [of 23] by (simp add: js_sub_def)
  have "round_half_even (25895697857380352 / 5) = 5179139571476070"
    by (rule round_half_even_eval) simp
  then have "round_pos (23 / 40) = Num (2589569785738035 / 4503599627370496)"
    by (subst round_pos_eval [where e = "- 1"]) (simp_all add: pow2_def Let_def)
  then have d: "js_div (Num 23) (Num 40) = Num (2589569785738035 / 4503599627370496)"
    by (simp add: js_div_def to_double_def)
  have "round_half_even (64739244643450875 / 8) = 8092405580431359"
    by (rule round_half_even_eval) simp
  then have "round_pos (2589569785738035 / 4503599627370496 * 100) = Num (8092405580431359 / 140737488355328)"
    by (subst round_pos_eval [where e = 5]) (simp_all add: pow2_def Let_def)
  then have m: "js_mul (Num (2589569785738035 / 4503599627370496)) (Num 100) = Num (8092405580431359 / 140737488355328)"
    by (simp add: js_mul_def to_double_def)
  have "\<lfloor>8092405580431359 / 140737488355328 + 1 / 2 :: rat\<rfloor> = 57"
    by (intro floor_unique) simp_all
  then show ?thesis
    by (simp add: reduction_def n s d m Let_def)
qed

text \<open>
  C8. The claim: the report gives the sizes of the two texts in bytes of UTF-8, and the
  reduction is \<open>round (100 * (original - minified) / original)\<close>, \<open>0\<close> when the
  original size is \<open>0\<close>, and not clamped when negative. The reduction is computed in
  doubles: pasted into the component as it starts, a script of 40 bytes with a comment of
  23 bytes is valid and is minified to 17 bytes, the quotient \<open>23 / 40\<close> is rounded down
  to a double, and the report says \<open>57\<close> where \<open>100 * 23 / 40 = 57.5\<close> is rounded to
  \<open>58\<close>.
\<close>

theorem handleMinify_below_tie:
  "handleCodeChange
     \<lparr>inputMethod = Paste, selectedFileType = T_js, inputCode = [], fileName = [],
      validation = \<lparr>isValid = False, error = None\<rparr>, minificationResult = None,
      isProcessing = False\<rparr>
     (js ''let area = w * h;// the width by height.'') =
     \<lparr>inputMethod = Paste, selectedFileType = T_js,
      inputCode = js ''let area = w * h;// the width by height.'', fileName = [],
      validation = \<lparr>isValid = True, error = None\<rparr>, minificationResult = None,
      isProcessing = False\<rparr> \<and>
   handleMinify
     \<lparr>inputMethod = Paste, selectedFileType = T_js,
      inputCode = js ''let area = w * h;// the width by height.'', fileName = [],
      validation = \<lparr>isValid = True, error = None\<rparr>, minificationResult = None,
      isProcessing = False\<rparr> =
     (\<lparr>inputMethod = Paste, selectedFileType = T_js,
       inputCode = js ''let area = w * h;// the width by height.'', fileName = [],
       validation = \<lparr>isValid = True, error = None\<rparr>,
       minificationResult =
         Some \<lparr>minified = js ''let area = w * h;'', originalSize = 40, minifiedSize = 17,
               reductionPercentage = Num 57\<rparr>,
       isProcessing = False\<rparr>, None) \<and>
   Math_round (Num (100 * (40 - 17) / 40)) = Num 58"
proof -
  have t: "trim (js ''let area = w * h;// the width by height.'') \<noteq> []"
    by (simp add: eval_defs)
  have "prefix (js ''let'') (js ''let area = w * h;// the width by height.'')"
    by (simp add: js_def)
  then have "sublist (js ''let'') (js ''let area = w * h;// the width by height.'')"
    by (rule prefix_imp_sublist)
  moreover have "js ''let'' \<in> set js_markers" by (simp add: js_markers_def)
  ultimately have "regex_test m_js (js ''let area = w * h;// the width by height.'')"
    unfolding m_js_def regex_test_m_alt by blast
  with t have v: "validateContent (js ''let area = w * h;// the width by height.'') T_js =
      \<lparr>isValid = True, error = None\<rparr>"
    by (simp add: valid_def)
  have m: "mockMinify (js ''let area = w * h;// the width by height.'') T_js =
      Inr (js ''let area = w * h;'')"
    by (simp add: eval_defs)
  have s: "blob_size (js ''let area = w * h;// the width by height.'') = 40"
      "blob_size (js ''let area = w * h;'') = 17"
    by (simp_all add: js_def blob_size_Cons unit_size_def isHighSurrogate_def isLowSurrogate_def)
  have r: "Math_round (Num (100 * (40 - 17) / 40)) = Num 58"
  proof -
    have "\<lfloor>100 * (40 - 17) / 40 + 1 / 2 :: rat\<rfloor> = 58" by (intro floor_unique) simp_all
    then show ?thesis by (simp add: Let_def)
  qed
  have 1: "handleCodeChange
     \<lparr>inputMethod = Paste, selectedFileType = T_js, inputCode = [], fileName = [],
      validation = \<lparr>isValid = False, error = None\<rparr>, minificationResult = None,
      isProcessing = False\<rparr>
     (js ''let area = w * h;// the width by height.'') =
     \<lparr>inputMethod = Paste, selectedFileType = T_js,
      inputCode = js ''let area = w * h;// the width by height.'', fileName = [],
      validation = \<lparr>isValid = True, error = None\<rparr>, minificationResult = None,
      isProcessing = False\<rparr>"
    by (simp add: handleCodeChange_def v del: validateContent.simps)
  have 2: "handleMinify
     \<lparr>inputMethod = Paste, selectedFileType = T_js,
      inputCode = js ''let area = w * h;// the width by height.'', fileName = [],
      validation = \<lparr>isValid = True, error = None\<rparr>, minificationResult = None,
      isProcessing = False\<rparr> =
     (\<lparr>inputMethod = Paste, selectedFileType = T_js,
       inputCode = js ''let area = w * h;// the width by height.'', fileName = [],
       validation = \<lparr>isValid = True, error = None\<rparr>,
       minificationResult =
         Some \<lparr>minified = js ''let area = w * h;'', originalSize = 40, minifiedSize = 17,
               reductionPercentage = Num 57\<rparr>,
       isProcessing = False\<rparr>, None)"
    using t by (simp add: handleMinify_def m s reduction_below_tie del: mockMinify.simps)
  from 1 2 r show ?thesis by (simp only: simp_thms)
qed

text \<open>
  C8, as it holds: when the validation is valid, the text is not blank (the original size
  is then positive; \<^verbatim>\<open>handleMinify\<close> does nothing otherwise), \<^verbatim>\<open>mockMinify\<close> returns
  and the two texts are shorter than \<open>2 ^ 43\<close> bytes, \<^verbatim>\<open>handleMinify\<close> reports the
  minified text, the sizes of the two texts in bytes of UTF-8, and as reduction an integer
  nearest to \<open>100 * (original - minified) / original\<close>, negative when the text has
  grown. The reduction is computed in doubles, so that on a tie either neighbour may come
  out.
\<close>

theorem handleMinify_report:
  "isValid (validation st) \<Longrightarrow> trim (inputCode st) \<noteq> [] \<Longrightarrow>
   mockMinify (inputCode st) (selectedFileType st) = Inr m \<Longrightarrow>
   blob_size (inputCode st) < 2 ^ 43 \<Longrightarrow> blob_size m < 2 ^ 43 \<Longrightarrow>
   \<exists>r k. handleMinify st =
           (st\<lparr>minificationResult :=
                 Some \<lparr>minified = m, originalSize = blob_size (inputCode st),
                       minifiedSize = blob_size m, reductionPercentage = r\<rparr>,
               isProcessing := False\<rparr>, None) \<and>
         0 < blob_size (inputCode st) \<and>
         (r = Num (of_int k) \<or> r = NegZero \<and> k = 0) \<and>
         \<bar>of_int k - 100 * of_int (int (blob_size (inputCode st)) - int (blob_size m))
                       / of_nat (blob_size (inputCode st))\<bar> \<le> (1 / 2 :: rat)"
proof -
  assume v: "isValid (validation st)" and t: "trim (inputCode st) \<noteq> []"
    and m: "mockMinify (inputCode st) (selectedFileType st) = Inr m"
    and b: "blob_size (inputCode st) < 2 ^ 43" "blob_size m < 2 ^ 43"
  from t have "inputCode st \<noteq> []" by (auto simp: trim_def)
  then have p: "0 < blob_size (inputCode st)" by (rule blob_size_pos)
  from reduction_nearest [OF p b] obtain k where
    k: "reduction (blob_size (inputCode st)) (blob_size m) = Num (of_int k) \<or>
        reduction (blob_size (inputCode st)) (blob_size m) = NegZero \<and> k = 0"
       "\<bar>of_int k - 100 * of_int (int (blob_size (inputCode st)) - int (blob_size m))
                       / of_nat (blob_size (inputCode st))\<bar> \<le> (1 / 2 :: rat)"
    by blast
  have "handleMinify st =
           (st\<lparr>minificationResult :=
                 Some \<lparr>minified = m, originalSize = blob_size (inputCode st),
                       minifiedSize = blob_size m,
                       reductionPercentage = reduction (blob_size (inputCode st)) (blob_size m)\<rparr>,
               isProcessing := False\<rparr>, None)"
    using v t m by (simp add: handleMinify_def)
  with p k show ?thesis by blast
qed

theorem handleMinify_report_witness:
  "isValid (validation \<lparr>inputMethod = Paste, selectedFileType = T_css, inputCode = js ''a {  }'',
      fileName = [], validation = \<lparr>isValid = True, error = None\<rparr>, minificationResult = None,
      isProcessing = False\<rparr>) \<and>
   trim (js ''a {  }'') \<noteq> [] \<and>
   mockMinify (js ''a {  }'') T_css = Inr (js ''a {}'') \<and>
   blob_size (js ''a {  }'') < 2 ^ 43 \<and> blob_size (js ''a {}'') < 2 ^ 43 \<and>
   (\<exists>r k. handleMinify \<lparr>inputMethod = Paste, selectedFileType = T_css, inputCode = js ''a {  }'',
      fileName = [], validation = \<lparr>isValid = True, error = None\<rparr>, minificationResult = None,
      isProcessing = False\<rparr> =
      (\<lparr>inputMethod = Paste, selectedFileType = T_css, inputCode = js ''a {  }'',
      fileName = [], validation = \<lparr>isValid = True, error = None\<rparr>,
      minificationResult = Some \<lparr>minified = js ''a {}'', originalSize = 6, minifiedSize = 4,
         reductionPercentage = r\<rparr>,
      isProcessing = False\<rparr>, None) \<and>
      (r = Num (of_int k) \<or> r = NegZero \<and> k = 0) \<and>
      \<bar>of_int k - 100 * of_int (6 - 4) / of_nat 6\<bar> \<le> (1 / 2 :: rat))"
proof -
  let ?st = "\<lparr>inputMethod = Paste, selectedFileType = T_css, inputCode = js ''a {  }'',
      fileName = [], validation = \<lparr>isValid = True, error = None\<rparr>, minificationResult = None,
      isProcessing = False\<rparr>"
  have a: "isValid (validation ?st)" by simp
  have b: "trim (inputCode ?st) \<noteq> []" by (simp add: eval_defs)
  have c: "mockMinify (inputCode ?st) (selectedFileType ?st) = Inr (js ''a {}'')" by (simp add: eval_defs)
  have s: "blob_size (js ''a {  }'') = 6" "blob_size (js ''a {}'') = 4"
    by (simp_all add: js_def blob_size_Cons unit_size_def isHighSurrogate_def isLowSurrogate_def)
  have d: "blob_size (inputCode ?st) < 2 ^ 43" "blob_size (js ''a {}'') < 2 ^ 43" by (simp_all add: s)
  from handleMinify_report [OF a b c d] a b c d s show ?thesis by simp
qed

end
